theory Spec2Isabelle
  imports Complex_Main "HOL-Library.Word" "HOL-Library.Monad_Syntax"
begin

unbundle bit_operations_syntax

section \<open>Directory entries (dirent.h)\<close>

text \<open>
  The fixed-width integers of the C++ code are words: \<open>uint32_t\<close>, \<open>unsigned\<close> and
  \<open>uid_t\<close> are \<open>32 word\<close>; \<open>uint64_t\<close>, \<open>inode_t\<close>, \<open>time_t\<close> and pointers are
  \<open>64 word\<close>. A \<open>NameString\<close> or \<open>LinkString\<close> is the list of its bytes. A private
  member \<open>x_\<close> of the class is the record field \<open>m_x\<close>.
\<close>

type_synonym uint32_t = "32 word"
type_synonym uint64_t = "64 word"
type_synonym inode_t = "64 word"

datatype SpecialDirents = kDirentNormal | kDirentNegative

text \<open>
  Modelled from the spec: \<open>hash::Any\<close> (hash.h is not among the sources). A content hash
  is the byte string of its digest; the default-constructed hash is the null digest of
  a SHA-1, twenty zero bytes.
\<close>

type_synonym hash_Any = "8 word list"

definition hash_Any_default :: hash_Any where
  "hash_Any_default = replicate 20 0"

record DirectoryEntry =
  m_catalog :: "64 word"
  m_name :: string
  m_inode :: inode_t
  m_parent_inode :: inode_t
  m_hardlinks :: uint64_t
  m_mode :: "32 word"
  m_uid :: "32 word"
  m_gid :: "32 word"
  m_size :: uint64_t
  m_mtime :: "64 word"
  m_cached_mtime :: "64 word"
  m_symlink :: string
  m_checksum :: hash_Any
  m_is_nested_catalog_root :: bool
  m_is_nested_catalog_mountpoint :: bool

definition kInvalidInode :: inode_t where
  "kInvalidInode = 0"

text \<open>The null pointer, and the pointer \<open>(Catalog * )(-1)\<close> that marks a negative entry.\<close>

definition NULL_ptr :: "64 word" where
  "NULL_ptr = 0"

definition negative_ptr :: "64 word" where
  "negative_ptr = - 1"

text \<open>\<open>DirectoryEntry()\<close>: every member of the initialiser list; the two strings and the
  checksum are default-constructed.\<close>

definition DirectoryEntry_default :: DirectoryEntry where
  "DirectoryEntry_default =
     \<lparr> m_catalog = NULL_ptr, m_name = [], m_inode = kInvalidInode,
       m_parent_inode = kInvalidInode, m_hardlinks = 0, m_mode = 0, m_uid = 0, m_gid = 0,
       m_size = 0, m_mtime = 0, m_cached_mtime = 0, m_symlink = [],
       m_checksum = hash_Any_default, m_is_nested_catalog_root = False,
       m_is_nested_catalog_mountpoint = False \<rparr>"

text \<open>
  \<open>DirectoryEntry(SpecialDirents special_type)\<close>: the initialiser list holds
  \<open>catalog_\<close> only and never reads \<open>special_type\<close>. The members of class type are
  default-constructed; the scalar members are left uninitialised, so the model takes
  their contents from \<open>indeterminate\<close>, which stands for whatever the storage held.
\<close>

definition DirectoryEntry_special :: "SpecialDirents \<Rightarrow> DirectoryEntry \<Rightarrow> DirectoryEntry" where
  "DirectoryEntry_special special_type indeterminate =
     indeterminate\<lparr> m_catalog := negative_ptr, m_name := [], m_symlink := [],
                     m_checksum := hash_Any_default \<rparr>"

definition GetSpecial :: "'a DirectoryEntry_scheme \<Rightarrow> SpecialDirents" where
  "GetSpecial e = (if m_catalog e = negative_ptr then kDirentNegative else kDirentNormal)"

definition IsNestedCatalogRoot :: "'a DirectoryEntry_scheme \<Rightarrow> bool" where
  "IsNestedCatalogRoot e = m_is_nested_catalog_root e"

definition IsNestedCatalogMountpoint :: "'a DirectoryEntry_scheme \<Rightarrow> bool" where
  "IsNestedCatalogMountpoint e = m_is_nested_catalog_mountpoint e"

text \<open>
  The file-type macros of \<open><sys/stat.h>\<close> (a system header, Linux values):
  \<open>S_IFMT = 0170000\<close>, \<open>S_IFDIR = 0040000\<close>, \<open>S_IFREG = 0100000\<close>,
  \<open>S_IFLNK = 0120000\<close>, and \<open>S_ISxxx(m)\<close> is \<open>(m & S_IFMT) == S_IFxxx\<close>.
\<close>

definition S_IFMT :: "32 word" where "S_IFMT = 0xF000"
definition S_IFDIR :: "32 word" where "S_IFDIR = 0x4000"
definition S_IFREG :: "32 word" where "S_IFREG = 0x8000"
definition S_IFLNK :: "32 word" where "S_IFLNK = 0xA000"

definition IsRegular :: "'a DirectoryEntry_scheme \<Rightarrow> bool" where
  "IsRegular e = (m_mode e AND S_IFMT = S_IFREG)"

definition IsLink :: "'a DirectoryEntry_scheme \<Rightarrow> bool" where
  "IsLink e = (m_mode e AND S_IFMT = S_IFLNK)"

definition IsDirectory :: "'a DirectoryEntry_scheme \<Rightarrow> bool" where
  "IsDirectory e = (m_mode e AND S_IFMT = S_IFDIR)"

subsection \<open>The hardlinks field\<close>

text \<open>\<open>(static_cast<uint64_t>(hardlink_group) << 32) | linkcount\<close>, stored in the entry.\<close>

definition set_hardlinks ::
  "uint32_t \<Rightarrow> uint32_t \<Rightarrow> 'a DirectoryEntry_scheme \<Rightarrow> 'a DirectoryEntry_scheme" where
  "set_hardlinks hardlink_group linkcount e =
     e\<lparr> m_hardlinks := push_bit 32 (ucast hardlink_group :: uint64_t) OR ucast linkcount \<rparr>"

text \<open>\<open>(hardlinks << 32) >> 32\<close> on a \<open>uint64_t\<close>, returned as \<open>uint32_t\<close>.\<close>

definition Hardlinks2Linkcount :: "uint64_t \<Rightarrow> uint32_t" where
  "Hardlinks2Linkcount hardlinks =
     (if hardlinks = 0 then 1 else ucast (drop_bit 32 (push_bit 32 hardlinks)))"

definition Hardlinks2HardlinkGroup :: "uint64_t \<Rightarrow> uint32_t" where
  "Hardlinks2HardlinkGroup hardlinks = ucast (drop_bit 32 hardlinks)"

definition linkcount :: "'a DirectoryEntry_scheme \<Rightarrow> uint32_t" where
  "linkcount e = Hardlinks2Linkcount (m_hardlinks e)"

definition hardlink_group :: "'a DirectoryEntry_scheme \<Rightarrow> uint32_t" where
  "hardlink_group e = Hardlinks2HardlinkGroup (m_hardlinks e)"

section \<open>Row marshalling (catalog_sql.cc)\<close>

text \<open>
  Modelled from the spec: the flag constants of catalog_sql.h, which is not among the
  sources. The spec fixes them as the stable on-disk values \<open>kFlagDir = 1\<close>,
  \<open>kFlagFile = 2\<close>, \<open>kFlagLink = 4\<close>, \<open>kFlagDirNestedRoot = 8\<close> and
  \<open>kFlagDirNestedMountpoint = 16\<close>.
\<close>

definition kFlagDir :: "32 word" where "kFlagDir = 1"
definition kFlagFile :: "32 word" where "kFlagFile = 2"
definition kFlagLink :: "32 word" where "kFlagLink = 4"
definition kFlagDirNestedRoot :: "32 word" where "kFlagDirNestedRoot = 8"
definition kFlagDirNestedMountpoint :: "32 word" where "kFlagDirNestedMountpoint = 16"

text \<open>\<open>SqlDirent::CreateDatabaseFlags\<close>: two \<open>if\<close>/\<open>else if\<close> chains that or bits into
  \<open>database_flags\<close>, which starts at 0.\<close>

definition CreateDatabaseFlags :: "DirectoryEntry \<Rightarrow> 32 word" where
  "CreateDatabaseFlags entry =
     (let database_flags = 0;
          database_flags =
            (if IsNestedCatalogRoot entry then database_flags OR kFlagDirNestedRoot
             else if IsNestedCatalogMountpoint entry
                  then database_flags OR kFlagDirNestedMountpoint
             else database_flags);
          database_flags =
            (if IsDirectory entry then database_flags OR kFlagDir
             else if IsLink entry then database_flags OR (kFlagFile OR kFlagLink)
             else database_flags OR kFlagFile)
      in database_flags)"

subsection \<open>Symlink variable expansion\<close>

text \<open>
  The process environment maps a variable name to its value; \<open>getenv\<close> reads its
  argument as a C string, up to the first NUL byte, and returns a null pointer
  (\<open>None\<close>) for a name that is not set.
\<close>

type_synonym environ = "string \<Rightarrow> string option"

definition c_str :: "string \<Rightarrow> string" where
  "c_str bytes = takeWhile (\<lambda>b. b \<noteq> CHR 0x00) bytes"

definition getenv :: "environ \<Rightarrow> string \<Rightarrow> string option" where
  "getenv env name = env (c_str name)"

text \<open>
  \<open>ExpandSymlink\<close> walks the buffer of the \<open>LinkString\<close> with pointers \<open>c\<close> and
  \<open>rpar\<close> that run up to and including \<open>cEnd = GetChars() + GetLength()\<close>, so it also
  reads the byte that follows the last character. That byte belongs to the string's
  buffer (shortstring.h, not among the sources, does not say what it holds); it is
  the parameter \<open>past\<close>. A pointer is modelled by its offset from \<open>GetChars()\<close>.
\<close>

definition byte_at :: "string \<Rightarrow> char \<Rightarrow> nat \<Rightarrow> char" where
  "byte_at s past i = (if i < length s then s ! i else past)"

text \<open>The first loop: \<open>for (; c <= cEnd; ++c) if ( *c == '$') goto expand_symlink;\<close>.
  \<open>None\<close> is the \<open>return\<close> after the loop.\<close>

function scan_dollar :: "string \<Rightarrow> char \<Rightarrow> nat \<Rightarrow> nat option" where
  "scan_dollar s past c =
     (if c \<le> length s
      then (if byte_at s past c = CHR ''$'' then Some c else scan_dollar s past (c + 1))
      else None)"
  by pat_completeness auto
termination
  by (relation "measure (\<lambda>(s, past, c). length s + 1 - c)") auto

text \<open>The inner loop: \<open>while (rpar <= cEnd) { if ( *rpar == ')') goto expand_symlink_getenv;
  rpar++; }\<close>. \<open>None\<close> is falling out of the loop (right parenthesis missing).\<close>

function scan_rpar :: "string \<Rightarrow> char \<Rightarrow> nat \<Rightarrow> nat option" where
  "scan_rpar s past rpar =
     (if rpar \<le> length s
      then (if byte_at s past rpar = CHR '')'' then Some rpar
            else scan_rpar s past (rpar + 1))
      else None)"
  by pat_completeness auto
termination
  by (relation "measure (\<lambda>(s, past, rpar). length s + 1 - rpar)") auto

declare scan_dollar.simps [simp del] scan_rpar.simps [simp del]

lemma scan_rpar_bounds: "scan_rpar s past r = Some x \<Longrightarrow> r \<le> x \<and> x \<le> length s"
proof (induction s past r rule: scan_rpar.induct)
  case (1 s past rpar)
  show ?case
  proof (cases "rpar \<le> length s \<and> byte_at s past rpar \<noteq> CHR '')''")
    case True
    with "1.prems" have "scan_rpar s past (rpar + 1) = Some x"
      by (subst (asm) scan_rpar.simps) simp
    with True "1.IH" show ?thesis by fastforce
  next
    case False
    with "1.prems" show ?thesis
      by (subst (asm) scan_rpar.simps) (auto split: if_splits)
  qed
qed

text \<open>
  The loop at the label \<open>expand_symlink\<close>, entered with \<open>c\<close> where the first loop
  stopped and an empty \<open>result\<close>. Each \<open>continue\<close> runs the \<open>++c\<close> of the \<open>for\<close>
  statement: after a missing parenthesis \<open>c\<close> has become \<open>c + 2\<close> and goes on at
  \<open>c + 3\<close>; after an expansion \<open>c = rpar + 1\<close> goes on at \<open>rpar + 2\<close>. The test
  \<open>c < cEnd - 2\<close> is \<open>c + 2 < length\<close>. The variable name is the \<open>rpar - c\<close> bytes
  copied from \<open>c\<close> (after \<open>c += 2\<close>).
\<close>

function expand_symlink :: "environ \<Rightarrow> string \<Rightarrow> char \<Rightarrow> nat \<Rightarrow> string \<Rightarrow> string" where
  "expand_symlink env s past c result =
     (if c \<le> length s
      then (if byte_at s past c = CHR ''$'' \<and> c + 2 < length s
               \<and> byte_at s past (c + 1) = CHR ''(''
            then (case scan_rpar s past (c + 2) of
                    None \<Rightarrow> expand_symlink env s past (c + 3) (result @ ''$('')
                  | Some rpar \<Rightarrow>
                      (let environ_var = take (rpar - (c + 2)) (drop (c + 2) s);
                           environ_value = getenv env environ_var
                       in expand_symlink env s past (rpar + 2)
                            (case environ_value of
                               None \<Rightarrow> result
                             | Some v \<Rightarrow> result @ v)))
            else expand_symlink env s past (c + 1) (result @ [byte_at s past c]))
      else result)"
  by pat_completeness auto

termination expand_symlink
  by (relation "measure (\<lambda>(env, s, past, c, result). length s + 1 - c)")
     (auto dest: scan_rpar_bounds)

declare expand_symlink.simps [simp del]

text \<open>\<open>SqlDirent::ExpandSymlink\<close>: the new contents of \<open>*raw_symlink\<close>. Without a
  \<open>$\<close> the string is left as it is; otherwise it is assigned \<open>result\<close>.\<close>

definition ExpandSymlink :: "environ \<Rightarrow> char \<Rightarrow> string \<Rightarrow> string" where
  "ExpandSymlink env past raw_symlink =
     (case scan_dollar raw_symlink past 0 of
        None \<Rightarrow> raw_symlink
      | Some c \<Rightarrow> expand_symlink env raw_symlink past c [])"

subsection \<open>Reading a row\<close>

text \<open>
  The columns \<open>SqlLookup::GetFieldsToSelect\<close> names, by index: 0 hash, 1 inode,
  2 size, 3 mode, 4 mtime, 5 flags, 6 name, 7 symlink, 8 and 9 md5path, 10 and 11
  parent, 12 rowid. An SQLite integer is a 64-bit value; \<open>RetrieveInt\<close> returns its
  low 32 bits and \<open>RetrieveInt64\<close> all of it; \<open>RetrieveText\<close> is read with
  \<open>strlen\<close>, up to the first NUL byte.
\<close>

record catalog_row =
  col_hash :: hash_Any
  col_inode :: "64 word"
  col_size :: "64 word"
  col_mode :: "64 word"
  col_mtime :: "64 word"
  col_flags :: "64 word"
  col_name :: string
  col_symlink :: string
  col_md5path_1 :: "64 word"
  col_md5path_2 :: "64 word"
  col_parent_1 :: "64 word"
  col_parent_2 :: "64 word"
  col_rowid :: "64 word"

definition RetrieveInt :: "64 word \<Rightarrow> 32 word" where
  "RetrieveInt column = ucast column"

definition RetrieveInt64 :: "64 word \<Rightarrow> 64 word" where
  "RetrieveInt64 column = column"

text \<open>
  What \<open>GetDirent\<close> uses of the \<open>Catalog\<close> it is given (catalog.h is not among the
  sources): its address, its \<open>schema()\<close> and its \<open>GetMangledInode\<close>, which is taken as
  it comes. The schema version is a \<open>double\<close> read from the database, where SQLite
  never returns a NaN; such a value is a real number and \<open><\<close> compares it as one.
\<close>

record Catalog =
  catalog_address :: "64 word"
  schema :: real
  GetMangledInode :: "64 word \<Rightarrow> 32 word \<Rightarrow> inode_t"

text \<open>
  \<open>SqlLookup::GetDirent\<close> assigns \<open>result.linkcount_\<close>, a member the class of dirent.h
  does not declare (there the link count is part of \<open>hardlinks_\<close>). The entry it
  returns is therefore a \<open>DirectoryEntry\<close> extended by that member.
\<close>

record DirectoryEntry_read = DirectoryEntry +
  m_linkcount :: "32 word"

definition GetDirent :: "environ \<Rightarrow> char \<Rightarrow> Catalog \<Rightarrow> catalog_row \<Rightarrow> DirectoryEntry_read" where
  "GetDirent env past catalog row =
     (let database_flags = RetrieveInt (col_flags row);
          hardlinks = RetrieveInt64 (col_inode row)
      in DirectoryEntry.extend DirectoryEntry_default \<lparr> m_linkcount =
             (if schema catalog < 2 then 1 else Hardlinks2Linkcount hardlinks) \<rparr>
         \<lparr> m_catalog := catalog_address catalog,
           m_is_nested_catalog_root := (database_flags AND kFlagDirNestedRoot \<noteq> 0),
           m_is_nested_catalog_mountpoint :=
             (database_flags AND kFlagDirNestedMountpoint \<noteq> 0),
           m_parent_inode := kInvalidInode,
           m_inode := GetMangledInode catalog (RetrieveInt64 (col_rowid row))
                        (if schema catalog < 2 then 0
                         else Hardlinks2HardlinkGroup hardlinks),
           m_mode := RetrieveInt (col_mode row),
           m_size := RetrieveInt64 (col_size row),
           m_mtime := RetrieveInt64 (col_mtime row),
           m_checksum := col_hash row,
           m_name := c_str (col_name row),
           m_symlink := ExpandSymlink env past (c_str (col_symlink row)) \<rparr>)"

subsection \<open>Statements on the link count\<close>

text \<open>
  The \<open>catalog\<close> table is the list of its rows. SQLite integers are 64-bit and signed:
  \<open><<\<close> drops the bits shifted out, \<open>>>\<close> is the arithmetic shift, and \<open>max\<close> and \<open>=\<close>
  compare the signed values. An MD5 path hash is the pair of its two 64-bit halves, as
  \<open>BindMd5\<close> binds them.
\<close>

type_synonym catalog_table = "catalog_row list"
type_synonym hash_Md5 = "64 word \<times> 64 word"

text \<open>\<open>SELECT inode from catalog WHERE md5path_1 = :md5_1 AND md5path_2 = :md5_2\<close> as a
  scalar subquery: the value of the first row found, or NULL (\<open>None\<close>).\<close>

definition select_inode :: "catalog_table \<Rightarrow> hash_Md5 \<Rightarrow> 64 word option" where
  "select_inode catalog hash =
     (case filter (\<lambda>r. col_md5path_1 r = fst hash \<and> col_md5path_2 r = snd hash) catalog of
        [] \<Rightarrow> None
      | r # _ \<Rightarrow> Some (col_inode r))"

text \<open>
  \<open>SqlIncLinkcount\<close>, the statement
  \<open>UPDATE catalog SET inode = CASE (inode << 32) >> 32 WHEN 2 THEN 0 ELSE inode+1*(:delta) END
  WHERE inode = (SELECT ...)\<close>, with \<open>:delta\<close> bound by \<open>BindInt\<close> from an \<open>int\<close> and the
  hash by \<open>BindPathHash\<close>. A comparison with NULL selects no row. The sum is taken in
  64 bits (SQLite computes it exactly while it fits a signed 64-bit integer).
\<close>

definition SqlIncLinkcount :: "catalog_table \<Rightarrow> hash_Md5 \<Rightarrow> 32 word \<Rightarrow> catalog_table" where
  "SqlIncLinkcount catalog hash delta =
     (case select_inode catalog hash of
        None \<Rightarrow> catalog
      | Some v \<Rightarrow>
          map (\<lambda>r. if col_inode r = v
                    then r\<lparr> col_inode :=
                           (if signed_drop_bit 32 (push_bit 32 (col_inode r)) = 2 then 0
                            else col_inode r + 1 * scast delta) \<rparr>
                    else r) catalog)"

text \<open>\<open>SELECT max(inode) FROM catalog\<close>: NULL on an empty table, else the greatest value
  in the signed order.\<close>

definition sql_max :: "64 word list \<Rightarrow> 64 word option" where
  "sql_max vs =
     (case vs of
        [] \<Rightarrow> None
      | v # vs' \<Rightarrow> Some (fold (\<lambda>a m. if sint m < sint a then a else m) vs' v))"

text \<open>\<open>SqlMaxHardlinkGroup::GetMaxGroupId\<close>: \<open>RetrieveInt64(0) >> 32\<close> on the signed
  \<open>sqlite3_int64\<close> (a NULL column reads as 0), converted to the \<open>uint32_t\<close> returned.\<close>

definition GetMaxGroupId :: "catalog_table \<Rightarrow> uint32_t" where
  "GetMaxGroupId catalog =
     ucast (signed_drop_bit 32
       (RetrieveInt64 (case sql_max (map col_inode catalog) of None \<Rightarrow> 0 | Some v \<Rightarrow> v)))"

text \<open>A row and two catalogs, of schema 1.0 and 2.0, on which the reading is run.\<close>

definition example_row :: catalog_row where
  "example_row =
     \<lparr> col_hash = [], col_inode = 0x0000000700000003, col_size = 0, col_mode = 0x81A4,
       col_mtime = 0, col_flags = 2, col_name = ''f'', col_symlink = [],
       col_md5path_1 = 1, col_md5path_2 = 2, col_parent_1 = 0, col_parent_2 = 0,
       col_rowid = 9 \<rparr>"

definition example_catalog :: "real \<Rightarrow> Catalog" where
  "example_catalog version =
     \<lparr> catalog_address = 64, schema = version,
       GetMangledInode = (\<lambda>row_id hardlink_group. row_id + push_bit 32 (ucast hardlink_group)) \<rparr>"

text \<open>Two rows that form the hardlink group 7 with link count 2, and a table whose first
  row carries group id \<open>2^31\<close>, which SQLite stores as a negative integer.\<close>

definition two_links :: catalog_table where
  "two_links =
     [example_row\<lparr> col_md5path_1 := 1, col_inode := 0x0000000700000002 \<rparr>,
      example_row\<lparr> col_md5path_1 := 2, col_inode := 0x0000000700000002 \<rparr>]"

definition high_group :: catalog_table where
  "high_group =
     [example_row\<lparr> col_md5path_1 := 1, col_inode := 0x8000000000000002 \<rparr>,
      example_row\<lparr> col_md5path_1 := 2, col_inode := 0x0000000100000002 \<rparr>]"

section \<open>The LRU cache (lru_cache.h)\<close>

subsection \<open>List entries in memory\<close>

text \<open>
  The LRU list is an intrusive, circular, doubly linked list of heap objects. An object
  lives at an address; the memory that holds list entries is a partial map from
  addresses to entries, and a pointer to an object that is not there (never allocated,
  or deleted) cannot be followed: every function that follows one returns \<open>None\<close>, as
  it does for an \<open>assert\<close> that fails. A \<open>ListEntryHead\<close> is an entry without content,
  a \<open>ListEntryContent\<close> one with it; \<open>isListHead\<close> tells them apart.
\<close>

record 'k ListEntry =
  next_ptr :: nat
  prev_ptr :: nat
  mContent :: "'k option"

type_synonym 'k entries = "nat \<rightharpoonup> 'k ListEntry"

definition c_assert :: "bool \<Rightarrow> unit option" where
  "c_assert b = (if b then Some () else None)"

definition get_next :: "'k entries \<Rightarrow> nat \<Rightarrow> nat option" where
  "get_next h p = map_option next_ptr (h p)"

definition get_prev :: "'k entries \<Rightarrow> nat \<Rightarrow> nat option" where
  "get_prev h p = map_option prev_ptr (h p)"

definition set_next :: "nat \<Rightarrow> nat \<Rightarrow> 'k entries \<Rightarrow> 'k entries option" where
  "set_next p v h = (case h p of None \<Rightarrow> None | Some e \<Rightarrow> Some (h(p \<mapsto> e\<lparr> next_ptr := v \<rparr>)))"

definition set_prev :: "nat \<Rightarrow> nat \<Rightarrow> 'k entries \<Rightarrow> 'k entries option" where
  "set_prev p v h = (case h p of None \<Rightarrow> None | Some e \<Rightarrow> Some (h(p \<mapsto> e\<lparr> prev_ptr := v \<rparr>)))"

definition isListHead :: "'k entries \<Rightarrow> nat \<Rightarrow> bool option" where
  "isListHead h p = map_option (\<lambda>e. mContent e = None) (h p)"

definition isLonely :: "'k entries \<Rightarrow> nat \<Rightarrow> bool option" where
  "isLonely h p = do {
     n \<leftarrow> get_next h p;
     q \<leftarrow> get_prev h p;
     Some (n = p \<and> q = p)
   }"

definition getContent :: "'k entries \<Rightarrow> nat \<Rightarrow> 'k option" where
  "getContent h p = Option.bind (h p) mContent"

text \<open>\<open>ListEntry::insertAsPredecessor\<close>, statement by statement.\<close>

definition insertAsPredecessor :: "nat \<Rightarrow> nat \<Rightarrow> 'k entries \<Rightarrow> 'k entries option" where
  "insertAsPredecessor this entry h = do {
     lonely \<leftarrow> isLonely h entry;
     c_assert lonely;
     is_head \<leftarrow> isListHead h entry;
     c_assert (\<not> is_head);
     h \<leftarrow> set_next entry this h;
     p \<leftarrow> get_prev h this;
     h \<leftarrow> set_prev entry p h;
     p \<leftarrow> get_prev h this;
     h \<leftarrow> set_next p entry h;
     h \<leftarrow> set_prev this entry h;
     lonely \<leftarrow> isLonely h entry;
     c_assert (\<not> lonely);
     Some h
   }"

text \<open>\<open>ListEntryContent::removeFromList\<close>; on a \<open>ListEntryHead\<close> the function is
  \<open>assert (false)\<close>.\<close>

definition removeFromList :: "nat \<Rightarrow> 'k entries \<Rightarrow> 'k entries option" where
  "removeFromList this h = do {
     is_head \<leftarrow> isListHead h this;
     c_assert (\<not> is_head);
     lonely \<leftarrow> isLonely h this;
     c_assert (\<not> lonely);
     p \<leftarrow> get_prev h this;
     n \<leftarrow> get_next h this;
     h \<leftarrow> set_next p n h;
     n \<leftarrow> get_next h this;
     p \<leftarrow> get_prev h this;
     h \<leftarrow> set_prev n p h;
     h \<leftarrow> set_next this this h;
     h \<leftarrow> set_prev this this h;
     lonely \<leftarrow> isLonely h this;
     c_assert lonely;
     Some h
   }"

text \<open>\<open>ListEntryHead::pop\<close>: unlink the entry, read its content, delete it.\<close>

definition pop :: "nat \<Rightarrow> 'k entries \<Rightarrow> ('k \<times> 'k entries) option" where
  "pop poppedEntry h = do {
     is_head \<leftarrow> isListHead h poppedEntry;
     c_assert (\<not> is_head);
     h \<leftarrow> removeFromList poppedEntry h;
     res \<leftarrow> getContent h poppedEntry;
     Some (res, h(poppedEntry := None))
   }"

definition pop_front :: "nat \<Rightarrow> 'k entries \<Rightarrow> ('k \<times> 'k entries) option" where
  "pop_front this h = do {
     empty \<leftarrow> isLonely h this;
     c_assert (\<not> empty);
     first \<leftarrow> get_next h this;
     pop first h
   }"

text \<open>
  \<open>ListEntryHead::push_back\<close>. \<open>new\<close> returns an address that holds no object; the
  model takes the addresses in turn from a counter that is passed along with the
  memory. The constructor of \<open>ListEntry\<close> makes the new entry lonely.
\<close>

definition push_back ::
  "nat \<Rightarrow> 'k \<Rightarrow> 'k entries \<times> nat \<Rightarrow> (nat \<times> 'k entries \<times> nat) option" where
  "push_back this content mem = do {
     let (h, fresh) = mem;
     let newEntry = fresh;
     let h = h(newEntry \<mapsto> \<lparr> next_ptr = newEntry, prev_ptr = newEntry,
                              mContent = Some content \<rparr>);
     h \<leftarrow> insertAsPredecessor this newEntry h;
     Some (newEntry, h, Suc fresh)
   }"

definition moveToBack :: "nat \<Rightarrow> nat \<Rightarrow> 'k entries \<Rightarrow> 'k entries option" where
  "moveToBack this entry h = do {
     lonely \<leftarrow> isLonely h entry;
     c_assert (\<not> lonely);
     h \<leftarrow> removeFromList entry h;
     insertAsPredecessor this entry h
   }"

text \<open>The loop of \<open>ListEntryHead::clear\<close>: delete entries along the \<open>next\<close> pointers
  until the one at hand is the list head. Not returning is the value \<open>None\<close>.\<close>

partial_function (option) clear_loop :: "'k entries \<Rightarrow> nat \<Rightarrow> 'k entries option" where
  "clear_loop h entry =
     (case h entry of
        None \<Rightarrow> None
      | Some e \<Rightarrow>
          if mContent e = None then Some h
          else clear_loop (h(entry := None)) (next_ptr e))"

definition clear :: "nat \<Rightarrow> 'k entries \<Rightarrow> 'k entries option" where
  "clear this h = do {
     entry \<leftarrow> get_next h this;
     h \<leftarrow> clear_loop h entry;
     h \<leftarrow> set_next this this h;
     set_prev this this h
   }"

subsection \<open>The cache\<close>

text \<open>
  \<open>mCache\<close> is the \<open>std::map\<close> from a key to its \<open>CacheEntry\<close>, the pair of the
  pointer \<open>listEntry\<close> and the value. The cache owns the memory of its list entries.
\<close>

record ('k, 'v) LruCache =
  mCurrentCacheSize :: "32 word"
  mMaxCacheSize :: "32 word"
  mLruList :: nat
  mCache :: "'k \<rightharpoonup> nat \<times> 'v"
  memory :: "'k entries"
  fresh_address :: nat

text \<open>The constructor: \<open>assert (maxCacheSize > 0)\<close>, then an empty cache whose list head
  is the first object allocated.\<close>

definition LruCache_new :: "32 word \<Rightarrow> ('k, 'v) LruCache option" where
  "LruCache_new maxCacheSize = do {
     c_assert (maxCacheSize > 0);
     Some \<lparr> mCurrentCacheSize = 0, mMaxCacheSize = maxCacheSize, mLruList = 0,
            mCache = Map.empty,
            memory = [0 \<mapsto> \<lparr> next_ptr = 0, prev_ptr = 0, mContent = None \<rparr>],
            fresh_address = 1 \<rparr>
   }"

definition isFull :: "('k, 'v) LruCache \<Rightarrow> bool" where
  "isFull c = (mCurrentCacheSize c \<ge> mMaxCacheSize c)"

definition isEmpty :: "('k, 'v) LruCache \<Rightarrow> bool" where
  "isEmpty c = (mCurrentCacheSize c = 0)"

definition getNumberOfEntries :: "('k, 'v) LruCache \<Rightarrow> 32 word" where
  "getNumberOfEntries c = mCurrentCacheSize c"

definition lookupCache :: "('k, 'v) LruCache \<Rightarrow> 'k \<Rightarrow> (nat \<times> 'v) option" where
  "lookupCache c key = mCache c key"

definition insertNewEntry :: "'k \<Rightarrow> 'v \<Rightarrow> ('k, 'v) LruCache \<Rightarrow> ('k, 'v) LruCache option" where
  "insertNewEntry key val c = do {
     c_assert (\<not> isFull c);
     (listEntry, h, fresh) \<leftarrow> push_back (mLruList c) key (memory c, fresh_address c);
     Some (c\<lparr> memory := h, fresh_address := fresh,
              mCache := (mCache c)(key \<mapsto> (listEntry, val)),
              mCurrentCacheSize := mCurrentCacheSize c + 1 \<rparr>)
   }"

definition updateExistingEntry ::
  "'k \<Rightarrow> nat \<times> 'v \<Rightarrow> ('k, 'v) LruCache \<Rightarrow> ('k, 'v) LruCache" where
  "updateExistingEntry key entry c = c\<lparr> mCache := (mCache c)(key \<mapsto> entry) \<rparr>"

definition touchEntry :: "nat \<times> 'v \<Rightarrow> ('k, 'v) LruCache \<Rightarrow> ('k, 'v) LruCache option" where
  "touchEntry entry c = do {
     h \<leftarrow> moveToBack (mLruList c) (fst entry) (memory c);
     Some (c\<lparr> memory := h \<rparr>)
   }"

definition deleteOldestEntry :: "('k, 'v) LruCache \<Rightarrow> ('k, 'v) LruCache option" where
  "deleteOldestEntry c = do {
     c_assert (\<not> isEmpty c);
     (keyToDelete, h) \<leftarrow> pop_front (mLruList c) (memory c);
     Some (c\<lparr> memory := h, mCache := (mCache c)(keyToDelete := None),
              mCurrentCacheSize := mCurrentCacheSize c - 1 \<rparr>)
   }"

text \<open>\<open>insert\<close> returns \<open>true\<close> on each of its paths; the result is that value with the
  cache after the call.\<close>

definition insert_entry ::
  "'k \<Rightarrow> 'v \<Rightarrow> ('k, 'v) LruCache \<Rightarrow> (bool \<times> ('k, 'v) LruCache) option" where
  "insert_entry key val c =
     (case lookupCache c key of
        Some entry \<Rightarrow> do {
          let entry = (fst entry, val);
          let c = updateExistingEntry key entry c;
          c \<leftarrow> touchEntry entry c;
          Some (True, c)
        }
      | None \<Rightarrow> do {
          c \<leftarrow> (if isFull c then deleteOldestEntry c else Some c);
          c \<leftarrow> insertNewEntry key val c;
          Some (True, c)
        })"

text \<open>\<open>lookup\<close>: on a hit the value found is written to the out parameter
  (\<open>Some value\<close>) and \<open>true\<close> is returned; on a miss the out parameter is left alone
  (\<open>None\<close>) and \<open>false\<close> is returned.\<close>

definition lookup ::
  "'k \<Rightarrow> ('k, 'v) LruCache \<Rightarrow> (bool \<times> 'v option \<times> ('k, 'v) LruCache) option" where
  "lookup key c =
     (case lookupCache c key of
        Some entry \<Rightarrow> do {
          c \<leftarrow> touchEntry entry c;
          Some (True, Some (snd entry), c)
        }
      | None \<Rightarrow> Some (False, None, c))"

definition drop_cache :: "('k, 'v) LruCache \<Rightarrow> ('k, 'v) LruCache option" where
  "drop_cache c = do {
     let c = c\<lparr> mCurrentCacheSize := 0 \<rparr>;
     h \<leftarrow> clear (mLruList c) (memory c);
     Some (c\<lparr> memory := h, mCache := Map.empty \<rparr>)
   }"

text \<open>The loop of \<open>resize\<close>: \<open>while (mCurrentCacheSize > newSize) deleteOldestEntry();\<close>.\<close>

partial_function (option) resize_loop ::
  "32 word \<Rightarrow> ('k, 'v) LruCache \<Rightarrow> ('k, 'v) LruCache option" where
  "resize_loop newSize c =
     (if mCurrentCacheSize c > newSize
      then Option.bind (deleteOldestEntry c) (resize_loop newSize)
      else Some c)"

definition resize :: "32 word \<Rightarrow> ('k, 'v) LruCache \<Rightarrow> ('k, 'v) LruCache option" where
  "resize newSize c = do {
     c_assert (newSize > 0);
     c \<leftarrow> resize_loop newSize c;
     Some (c\<lparr> mMaxCacheSize := newSize \<rparr>)
   }"

text \<open>The public operations, and a run of them on a cache: the cache after the last
  one, or \<open>None\<close> as soon as one of them does not return.\<close>

datatype ('k, 'v) cache_op = Insert 'k 'v | Lookup 'k | Drop | Resize "32 word"

fun apply_op :: "('k, 'v) cache_op \<Rightarrow> ('k, 'v) LruCache \<Rightarrow> ('k, 'v) LruCache option" where
  "apply_op (Insert key val) c = map_option snd (insert_entry key val c)"
| "apply_op (Lookup key) c = map_option (\<lambda>r. snd (snd r)) (lookup key c)"
| "apply_op Drop c = drop_cache c"
| "apply_op (Resize newSize) c = resize newSize c"

fun run_ops :: "('k, 'v) cache_op list \<Rightarrow> ('k, 'v) LruCache \<Rightarrow> ('k, 'v) LruCache option" where
  "run_ops [] c = Some c"
| "run_ops (x # xs) c = Option.bind (apply_op x c) (run_ops xs)"

subsection \<open>Reading the list off the memory\<close>

text \<open>
  What the pointers in memory amount to. \<open>path f x as y\<close>: following the pointer field
  \<open>f\<close> from \<open>x\<close> visits exactly the addresses \<open>as\<close> and then arrives at \<open>y\<close>.
  \<open>ring h head as\<close>: the \<open>next\<close> pointers lead from the head through \<open>as\<close> back to
  the head, and the \<open>prev\<close> pointers lead the same way backwards. \<open>lru_list\<close> adds the
  contents of the entries, \<open>cache_abs\<close> the map, the counter and the allocation of the
  cache: \<open>es\<close> lists address, key and value of the cached entries, oldest first.
\<close>

fun path :: "(nat \<rightharpoonup> nat) \<Rightarrow> nat \<Rightarrow> nat list \<Rightarrow> nat \<Rightarrow> bool" where
  "path f x [] y = (x = y)"
| "path f x (a # as) y = (x = a \<and> (case f a of None \<Rightarrow> False | Some z \<Rightarrow> path f z as y))"

definition ring :: "'k entries \<Rightarrow> nat \<Rightarrow> nat list \<Rightarrow> bool" where
  "ring h head as =
     (distinct (head # as) \<and> path (get_next h) head (head # as) head
      \<and> path (get_prev h) head (head # rev as) head)"

definition lru_list :: "'k entries \<Rightarrow> nat \<Rightarrow> (nat \<times> 'k) list \<Rightarrow> bool" where
  "lru_list h head es =
     (ring h head (map fst es) \<and> isListHead h head = Some True
      \<and> (\<forall>a k. (a, k) \<in> set es \<longrightarrow> getContent h a = Some k))"

definition cache_abs :: "('k, 'v) LruCache \<Rightarrow> (nat \<times> 'k \<times> 'v) list \<Rightarrow> bool" where
  "cache_abs c es =
     (lru_list (memory c) (mLruList c) (map (\<lambda>e. (fst e, fst (snd e))) es)
      \<and> distinct (map (\<lambda>e. fst (snd e)) es)
      \<and> (\<forall>k a v. mCache c k = Some (a, v) \<longleftrightarrow> (a, k, v) \<in> set es)
      \<and> unat (mCurrentCacheSize c) = length es
      \<and> mCurrentCacheSize c \<le> mMaxCacheSize c
      \<and> 0 < mMaxCacheSize c
      \<and> (\<forall>a\<in>dom (memory c). a < fresh_address c))"

text \<open>
  The keys of the cache as its list holds them: from the front of the list
  (\<open>getFront\<close>) along the \<open>next\<close> pointers, as many entries as the cache counts; and
  the same with the value that \<open>mCache\<close> holds for each key.
\<close>

fun walk :: "'k entries \<Rightarrow> nat \<Rightarrow> nat \<Rightarrow> 'k list" where
  "walk h p 0 = []"
| "walk h p (Suc n) =
     (case h p of
        None \<Rightarrow> []
      | Some e \<Rightarrow> (case mContent e of None \<Rightarrow> [] | Some k \<Rightarrow> k # walk h (next_ptr e) n))"

definition lru_order :: "('k, 'v) LruCache \<Rightarrow> 'k list" where
  "lru_order c =
     (case get_next (memory c) (mLruList c) of
        None \<Rightarrow> []
      | Some first \<Rightarrow> walk (memory c) first (unat (getNumberOfEntries c)))"

definition lru_contents :: "('k, 'v) LruCache \<Rightarrow> ('k \<times> 'v) list" where
  "lru_contents c =
     List.map_filter (\<lambda>k. map_option (\<lambda>entry. (k, snd entry)) (mCache c k)) (lru_order c)"

subsection \<open>The cache as the spec describes it\<close>

text \<open>
  The spec's words for the cache, on the list of key-value pairs in order of use, least
  recently used first: \<open>Insert\<close> on an existing key updates the value and promotes;
  \<open>Insert\<close> on a new key when full evicts the least-recently-used entry first;
  \<open>Lookup\<close> on hit promotes the entry to most-recently-used; \<open>Drop\<close> empties;
  \<open>Resize\<close> evicts least-recently-used entries until the size fits. These functions
  are not taken from the code; the code is compared with them.
\<close>

definition spec_insert :: "nat \<Rightarrow> 'k \<Rightarrow> 'v \<Rightarrow> ('k \<times> 'v) list \<Rightarrow> ('k \<times> 'v) list" where
  "spec_insert capacity k v kvs =
     (if k \<in> fst ` set kvs then filter (\<lambda>e. fst e \<noteq> k) kvs @ [(k, v)]
      else (if capacity \<le> length kvs then tl kvs else kvs) @ [(k, v)])"

definition spec_lookup :: "'k \<Rightarrow> ('k \<times> 'v) list \<Rightarrow> ('k \<times> 'v) list" where
  "spec_lookup k kvs =
     (case map_of kvs k of
        None \<Rightarrow> kvs
      | Some v \<Rightarrow> filter (\<lambda>e. fst e \<noteq> k) kvs @ [(k, v)])"

definition spec_resize :: "nat \<Rightarrow> ('k \<times> 'v) list \<Rightarrow> ('k \<times> 'v) list" where
  "spec_resize newSize kvs = drop (length kvs - newSize) kvs"

fun spec_step :: "('k, 'v) cache_op \<Rightarrow> nat \<times> ('k \<times> 'v) list \<Rightarrow> nat \<times> ('k \<times> 'v) list" where
  "spec_step (Insert k v) (capacity, kvs) = (capacity, spec_insert capacity k v kvs)"
| "spec_step (Lookup k) (capacity, kvs) = (capacity, spec_lookup k kvs)"
| "spec_step Drop (capacity, kvs) = (capacity, [])"
| "spec_step (Resize newSize) (capacity, kvs) = (unat newSize, spec_resize (unat newSize) kvs)"

text \<open>\<open>resize\<close> asserts that its argument is positive; the other operations take any
  argument.\<close>

definition valid_op :: "('k, 'v) cache_op \<Rightarrow> bool" where
  "valid_op x = (case x of Resize newSize \<Rightarrow> 0 < newSize | _ \<Rightarrow> True)"

section \<open>Properties of directory entries\<close>

lemma group_of_packed:
  "Hardlinks2HardlinkGroup (push_bit 32 (ucast (g::32 word) :: 64 word) OR ucast (n::32 word)) = g"
  unfolding Hardlinks2HardlinkGroup_def
  by (rule bit_word_eqI) (auto simp: bit_simps dest: bit_imp_le_length)

lemma low_of_packed:
  "(ucast (drop_bit 32 (push_bit 32
      (push_bit 32 (ucast (g::32 word) :: 64 word) OR ucast (n::32 word)))) :: 32 word) = n"
  by (rule bit_word_eqI) (auto simp: bit_simps dest: bit_imp_le_length)

lemma packed_eq_0:
  "push_bit 32 (ucast (g::32 word) :: 64 word) OR ucast (n::32 word) = 0 \<longleftrightarrow> g = 0 \<and> n = 0"
proof
  assume a: "push_bit 32 (ucast g :: 64 word) OR ucast n = 0"
  have "g = Hardlinks2HardlinkGroup 0"
    using group_of_packed[of g n] unfolding a by simp
  moreover have "n = ucast (drop_bit 32 (push_bit 32 (0::64 word)))"
    using low_of_packed[of g n] unfolding a by simp
  ultimately show "g = 0 \<and> n = 0"
    by (simp add: Hardlinks2HardlinkGroup_def)
qed simp

text \<open>
  C4: the hardlinks field holds the group id in its high 32 bits and the link count in
  its low 32 bits. For every group id \<open>g\<close> and link count \<open>n\<close>, the entry written by
  \<open>set_hardlinks g n\<close> reads back group \<open>g\<close>, and reads back link count \<open>n\<close> unless
  both are 0; the raw value 0 reads as group 0 with link count 1.
\<close>

theorem hardlinks_roundtrip:
  "hardlink_group (set_hardlinks g n e) = g
   \<and> ((g, n) \<noteq> (0, 0) \<longrightarrow> linkcount (set_hardlinks g n e) = n)
   \<and> Hardlinks2HardlinkGroup 0 = 0 \<and> Hardlinks2Linkcount 0 = 1"
proof -
  have 1: "hardlink_group (set_hardlinks g n e) = g"
    unfolding hardlink_group_def set_hardlinks_def using group_of_packed[of g n] by simp
  have 2: "linkcount (set_hardlinks g n e) = n" if "(g, n) \<noteq> (0, 0)"
  proof -
    have "push_bit 32 (ucast g :: 64 word) OR ucast n \<noteq> 0"
      using that packed_eq_0[of g n] by simp
    then have "Hardlinks2Linkcount (push_bit 32 (ucast g :: 64 word) OR ucast n) = n"
      unfolding Hardlinks2Linkcount_def using low_of_packed[of g n] by (simp only: if_False)
    then show ?thesis
      unfolding linkcount_def set_hardlinks_def by simp
  qed
  have 3: "Hardlinks2HardlinkGroup 0 = 0"
    by (simp add: Hardlinks2HardlinkGroup_def)
  have 4: "Hardlinks2Linkcount 0 = 1"
    by (simp add: Hardlinks2Linkcount_def)
  from 1 2 3 4 show ?thesis by blast
qed

theorem hardlinks_roundtrip_witness:
  "((5::32 word), (3::32 word)) \<noteq> (0, 0)
   \<and> linkcount (set_hardlinks 5 3 DirectoryEntry_default) = 3
   \<and> hardlink_group (set_hardlinks 5 3 DirectoryEntry_default) = 5"
  using hardlinks_roundtrip[of 5 3 DirectoryEntry_default] by simp

text \<open>
  C10: the constructor that takes a \<open>SpecialDirents\<close> argument builds a negative entry
  whatever the argument is, \<open>kDirentNormal\<close> included, and whatever the uninitialised
  members hold; a default-constructed entry is a normal one.
\<close>

theorem special_constructor_ignores_argument:
  "GetSpecial (DirectoryEntry_special special_type indeterminate) = kDirentNegative
   \<and> GetSpecial (DirectoryEntry_special kDirentNormal indeterminate) = kDirentNegative
   \<and> GetSpecial DirectoryEntry_default = kDirentNormal"
  by (simp add: GetSpecial_def DirectoryEntry_special_def DirectoryEntry_default_def
        NULL_ptr_def negative_ptr_def)

section \<open>Properties of the row marshalling\<close>

lemmas flag_defs =
  kFlagDir_def kFlagFile_def kFlagLink_def kFlagDirNestedRoot_def kFlagDirNestedMountpoint_def

lemma S_IS_exclusive:
  "\<not> (IsDirectory e \<and> IsLink e)" "\<not> (IsDirectory e \<and> IsRegular e)"
  "\<not> (IsLink e \<and> IsRegular e)"
  by (auto simp: IsDirectory_def IsLink_def IsRegular_def S_IFDIR_def S_IFLNK_def S_IFREG_def)

text \<open>
  C8: the flags written for an entry never hold both \<open>kFlagDirNestedRoot\<close> and
  \<open>kFlagDirNestedMountpoint\<close>, also when both markers of the entry are set; and of
  the type bits exactly one encoding is present: \<open>kFlagDir\<close> for a directory,
  \<open>kFlagFile | kFlagLink\<close> for a symlink, \<open>kFlagFile\<close> alone for a regular file.
\<close>

theorem CreateDatabaseFlags_encoding:
  "\<not> (CreateDatabaseFlags e AND kFlagDirNestedRoot \<noteq> 0
       \<and> CreateDatabaseFlags e AND kFlagDirNestedMountpoint \<noteq> 0)
   \<and> (IsDirectory e \<longrightarrow>
         CreateDatabaseFlags e AND (kFlagDir OR kFlagFile OR kFlagLink) = kFlagDir)
   \<and> (IsLink e \<longrightarrow>
         CreateDatabaseFlags e AND (kFlagDir OR kFlagFile OR kFlagLink)
           = kFlagFile OR kFlagLink)
   \<and> (IsRegular e \<longrightarrow>
         CreateDatabaseFlags e AND (kFlagDir OR kFlagFile OR kFlagLink) = kFlagFile)
   \<and> CreateDatabaseFlags e AND (kFlagDir OR kFlagFile OR kFlagLink)
         \<in> {kFlagDir, kFlagFile OR kFlagLink, kFlagFile}"
  using S_IS_exclusive[of e]
  by (cases "IsNestedCatalogRoot e"; cases "IsNestedCatalogMountpoint e";
      cases "IsDirectory e"; cases "IsLink e")
     (simp_all add: CreateDatabaseFlags_def flag_defs)

theorem CreateDatabaseFlags_encoding_witness:
  "IsDirectory (DirectoryEntry_default\<lparr> m_mode := 0x41ED, m_is_nested_catalog_root := True,
      m_is_nested_catalog_mountpoint := True \<rparr>)
   \<and> CreateDatabaseFlags (DirectoryEntry_default\<lparr> m_mode := 0x41ED,
        m_is_nested_catalog_root := True, m_is_nested_catalog_mountpoint := True \<rparr>)
        AND (kFlagDir OR kFlagFile OR kFlagLink) = kFlagDir
   \<and> IsLink (DirectoryEntry_default\<lparr> m_mode := 0xA1FF \<rparr>)
   \<and> CreateDatabaseFlags (DirectoryEntry_default\<lparr> m_mode := 0xA1FF \<rparr>)
        AND (kFlagDir OR kFlagFile OR kFlagLink) = kFlagFile OR kFlagLink
   \<and> IsRegular (DirectoryEntry_default\<lparr> m_mode := 0x81A4 \<rparr>)
   \<and> CreateDatabaseFlags (DirectoryEntry_default\<lparr> m_mode := 0x81A4 \<rparr>)
        AND (kFlagDir OR kFlagFile OR kFlagLink) = kFlagFile"
  using CreateDatabaseFlags_encoding
          [of "DirectoryEntry_default\<lparr> m_mode := 0x41ED, m_is_nested_catalog_root := True,
                 m_is_nested_catalog_mountpoint := True \<rparr>"]
        CreateDatabaseFlags_encoding [of "DirectoryEntry_default\<lparr> m_mode := 0xA1FF \<rparr>"]
        CreateDatabaseFlags_encoding [of "DirectoryEntry_default\<lparr> m_mode := 0x81A4 \<rparr>"]
  by (simp add: IsDirectory_def IsLink_def IsRegular_def DirectoryEntry_default_def
        S_IFMT_def S_IFDIR_def S_IFLNK_def S_IFREG_def)

text \<open>
  C7: an entry read from a catalog whose schema is below 2.0 gets link count 1, and
  group id 0 goes into its inode and is what its hardlinks field reads as, whatever
  the row's hardlinks column holds. From schema 2.0 on, the link count and the group id
  are decoded from that column: the link count is stored in the entry, the group id is
  handed to the inode computation.
\<close>

theorem GetDirent_schema:
  "(schema catalog < 2 \<longrightarrow>
      m_linkcount (GetDirent env past catalog row) = 1
      \<and> m_inode (GetDirent env past catalog row) = GetMangledInode catalog (col_rowid row) 0
      \<and> hardlink_group (GetDirent env past catalog row) = 0)
   \<and> (\<not> schema catalog < 2 \<longrightarrow>
      m_linkcount (GetDirent env past catalog row) = Hardlinks2Linkcount (col_inode row)
      \<and> m_inode (GetDirent env past catalog row) =
          GetMangledInode catalog (col_rowid row) (Hardlinks2HardlinkGroup (col_inode row)))"
  by (simp add: GetDirent_def Let_def RetrieveInt64_def DirectoryEntry.extend_def
        DirectoryEntry_default_def hardlink_group_def Hardlinks2HardlinkGroup_def)

theorem GetDirent_schema_witness:
  "schema (example_catalog 1) < 2
   \<and> m_linkcount (GetDirent Map.empty (CHR 0x00) (example_catalog 1) example_row) = 1
   \<and> m_inode (GetDirent Map.empty (CHR 0x00) (example_catalog 1) example_row) = 9
   \<and> \<not> schema (example_catalog 2) < 2
   \<and> m_linkcount (GetDirent Map.empty (CHR 0x00) (example_catalog 2) example_row) = 3
   \<and> m_inode (GetDirent Map.empty (CHR 0x00) (example_catalog 2) example_row)
       = 0x0000000700000009"
  using GetDirent_schema [of "example_catalog 1" Map.empty "CHR 0x00" example_row]
        GetDirent_schema [of "example_catalog 2" Map.empty "CHR 0x00" example_row]
  by (simp add: example_catalog_def example_row_def Hardlinks2Linkcount_def
        Hardlinks2HardlinkGroup_def)

section \<open>Symlink expansion on concrete targets\<close>

lemmas ExpandSymlink_eval =
  ExpandSymlink_def scan_dollar.simps scan_rpar.simps expand_symlink.simps byte_at_def
  getenv_def c_str_def

text \<open>
  C1: the claim is that a \<open>$(\<close> without a closing parenthesis, and the rest of the
  target, come out unchanged, so that \<open>$(unterminated\<close> expands to itself. The code
  appends \<open>$(\<close> and then \<open>continue\<close>s, which steps over the character that follows
  \<open>$(\<close>; it also appends the byte behind the end of the string. Whatever the
  environment, \<open>$(unterminated\<close> becomes \<open>$(nterminated\<close> followed by that byte
  (and the value of the variable \<open>unterminated\<close> when that byte is a right
  parenthesis); with a NUL behind the string the result differs from the target.
\<close>

theorem ExpandSymlink_unterminated:
  "ExpandSymlink env past ''$(unterminated'' =
     (if past = CHR '')'' then (case env ''unterminated'' of None \<Rightarrow> [] | Some v \<Rightarrow> v)
      else ''$(nterminated'' @ [past])
   \<and> ExpandSymlink env (CHR 0x00) ''$(unterminated'' \<noteq> ''$(unterminated''"
  by (simp add: ExpandSymlink_eval split: option.splits)

text \<open>
  C5: the claim is that each \<open>$(VAR)\<close> is replaced by the value of \<open>VAR\<close> and every
  other character is kept. The code starts copying at the first \<open>$\<close>, so what stands
  before it is lost, and after an expansion it steps over the character behind the
  right parenthesis: \<open>/$(FOO)\<close> expands to the value of \<open>FOO\<close> alone, and
  \<open>$(FOO)/x\<close> to the value followed by \<open>x\<close> and the byte behind the end of the string.
\<close>

theorem ExpandSymlink_loses_neighbours:
  "ExpandSymlink env past ''/$(FOO)'' = (case env ''FOO'' of None \<Rightarrow> [] | Some v \<Rightarrow> v)
   \<and> ExpandSymlink env past ''$(FOO)/x'' =
       (case env ''FOO'' of None \<Rightarrow> [] | Some v \<Rightarrow> v) @ ''x'' @ [past]
   \<and> ExpandSymlink [''FOO'' \<mapsto> ''bar''] past ''/$(FOO)'' = ''bar''"
  by (simp add: ExpandSymlink_eval split: option.splits)

text \<open>The two targets the spec names, which consist of one variable reference only.\<close>

lemma ExpandSymlink_single_reference:
  "ExpandSymlink [''FOO'' \<mapsto> ''bar''] past ''$(FOO)'' = ''bar''"
  "ExpandSymlink Map.empty past ''$(MISSING)'' = []"
  by (simp_all add: ExpandSymlink_eval split: option.splits)

lemma scan_dollar_none:
  assumes "CHR ''$'' \<notin> set s" "past \<noteq> CHR ''$''"
  shows "scan_dollar s past c = None"
proof (induction "length s + 1 - c" arbitrary: c)
  case 0
  then have "\<not> c \<le> length s" by simp
  then show ?case by (subst scan_dollar.simps) simp
next
  case (Suc n)
  then have le: "c \<le> length s" and n: "n = length s + 1 - (c + 1)" by simp_all
  have "byte_at s past c \<noteq> CHR ''$''"
  proof (cases "c < length s")
    case True
    then have "s ! c \<in> set s" by (rule nth_mem)
    with assms(1) have "s ! c \<noteq> CHR ''$''" by metis
    with True show ?thesis by (simp add: byte_at_def)
  next
    case False
    with assms(2) show ?thesis by (simp add: byte_at_def)
  qed
  with le Suc.hyps(1)[OF n] show ?case by (subst scan_dollar.simps) simp
qed

text \<open>
  A target without a \<open>$\<close> is returned as it is, provided the byte behind its end,
  which the first loop also inspects, is not a \<open>$\<close> either.
\<close>

theorem ExpandSymlink_without_dollar:
  assumes "CHR ''$'' \<notin> set raw_symlink" "past \<noteq> CHR ''$''"
  shows "ExpandSymlink env past raw_symlink = raw_symlink"
  using scan_dollar_none[OF assms] by (simp add: ExpandSymlink_def)

theorem ExpandSymlink_without_dollar_witness:
  "CHR ''$'' \<notin> set ''/cvmfs/sw'' \<and> CHR 0x00 \<noteq> CHR ''$''
   \<and> ExpandSymlink Map.empty (CHR 0x00) ''/cvmfs/sw'' = ''/cvmfs/sw''"
  using ExpandSymlink_without_dollar[of "''/cvmfs/sw''" "CHR 0x00" Map.empty] by simp

lemma scan_rpar_reference:
  assumes "CHR '')'' \<notin> set var" "i \<le> length var"
  shows "scan_rpar (''$('' @ var @ '')'') past (2 + i) = Some (length var + 2)"
  using assms(2)
proof (induction "length var - i" arbitrary: i)
  case 0
  then have i: "i = length var" by simp
  show ?case unfolding i
    by (subst scan_rpar.simps) (simp add: byte_at_def nth_append)
next
  case (Suc n)
  then have lt: "i < length var" and n: "n = length var - (i + 1)" by simp_all
  from lt have "var ! i \<in> set var" by (rule nth_mem)
  with assms(1) have "var ! i \<noteq> CHR '')''" by metis
  with lt have b: "byte_at (''$('' @ var @ '')'') past (2 + i) \<noteq> CHR '')''"
    by (simp add: byte_at_def nth_append)
  from lt have "i + 1 \<le> length var" by simp
  from Suc.hyps(1)[OF n this] have "scan_rpar (''$('' @ var @ '')'') past (2 + i + 1) = Some (length var + 2)"
    by (simp add: add.assoc)
  with b lt show ?case by (subst scan_rpar.simps) simp
qed

text \<open>
  A target that consists of one reference \<open>$(VAR)\<close> and nothing else, the name free of
  right parentheses and NUL bytes, expands to the value of \<open>VAR\<close>, and to the empty
  string when \<open>VAR\<close> is not set, whatever byte lies behind the string.
\<close>

theorem ExpandSymlink_whole_reference:
  assumes "CHR '')'' \<notin> set var" "CHR 0x00 \<notin> set var"
  shows "ExpandSymlink env past (''$('' @ var @ '')'')
           = (case env var of None \<Rightarrow> [] | Some v \<Rightarrow> v)"
proof -
  let ?s = "''$('' @ var @ '')''"
  have d: "scan_dollar ?s past 0 = Some 0"
    by (subst scan_dollar.simps) (simp add: byte_at_def)
  have r: "scan_rpar ?s past 2 = Some (length var + 2)"
  proof -
    have "0 \<le> length var" by simp
    from scan_rpar_reference[OF assms(1) this, of past] show ?thesis
      by (simp only: Nat.add_0_right)
  qed
  have c: "c_str var = var"
    using assms(2) unfolding c_str_def by (simp add: takeWhile_eq_all_conv) metis
  have r': "scan_rpar ?s past (Suc (Suc 0)) = Some (Suc (Suc (length var)))"
    using r by (simp add: numeral_2_eq_2)
  have fin: "expand_symlink env ?s past (Suc (Suc (Suc (Suc (length var))))) result = result"
    for result
    by (subst expand_symlink.simps) simp
  have "expand_symlink env ?s past 0 [] = (case env var of None \<Rightarrow> [] | Some v \<Rightarrow> v)"
    by (subst expand_symlink.simps)
       (simp add: r'[simplified] fin[simplified] byte_at_def getenv_def c Let_def split: option.splits)
  with d show ?thesis by (simp add: ExpandSymlink_def)
qed

theorem ExpandSymlink_whole_reference_witness:
  "CHR '')'' \<notin> set ''FOO'' \<and> CHR 0x00 \<notin> set ''FOO''
   \<and> ExpandSymlink [''FOO'' \<mapsto> ''bar''] (CHR 0x00) ''$(FOO)'' = ''bar''"
  using ExpandSymlink_whole_reference[of "''FOO''" "[''FOO'' \<mapsto> ''bar'']" "CHR 0x00"] by simp

section \<open>Properties of the link-count statements\<close>

text \<open>
  C2: the claim is that the group id is cleared only by a decrement from link count 2,
  and that an increment at link count 2 keeps the group. The \<open>CASE\<close> of the statement
  tests the link count alone and never looks at \<open>:delta\<close>: incrementing the group of
  two rows with link count 2 sets the hardlinks field of both rows to 0, which reads as
  no group and link count 1, where the claim asks for group 7 with link count 3.
\<close>

theorem SqlIncLinkcount_increment_at_two:
  "map col_inode (SqlIncLinkcount two_links (1, 2) 1) = [0, 0]
   \<and> map (\<lambda>r. Hardlinks2HardlinkGroup (col_inode r)) two_links = [7, 7]
   \<and> map (\<lambda>r. Hardlinks2Linkcount (col_inode r)) two_links = [2, 2]
   \<and> map (\<lambda>r. Hardlinks2HardlinkGroup (col_inode r)) (SqlIncLinkcount two_links (1, 2) 1)
       = [0, 0]
   \<and> map (\<lambda>r. Hardlinks2Linkcount (col_inode r)) (SqlIncLinkcount two_links (1, 2) 1)
       = [1, 1]"
  by (simp add: SqlIncLinkcount_def select_inode_def two_links_def example_row_def
        Hardlinks2HardlinkGroup_def Hardlinks2Linkcount_def)

text \<open>What the statement does away from that case: a decrement at link count 2 clears
  the field of the whole group, and at link count 3 the delta is added.\<close>

lemma SqlIncLinkcount_other_cases:
  "map col_inode (SqlIncLinkcount two_links (1, 2) (- 1)) = [0, 0]"
  "map col_inode (SqlIncLinkcount
      (map (\<lambda>r. r\<lparr> col_inode := 0x0000000700000003 \<rparr>) two_links) (1, 2) (- 1))
     = [0x0000000700000002, 0x0000000700000002]"
  "map col_inode (SqlIncLinkcount
      (map (\<lambda>r. r\<lparr> col_inode := 0x0000000700000003 \<rparr>) two_links) (1, 2) 1)
     = [0x0000000700000004, 0x0000000700000004]"
  by (simp_all add: SqlIncLinkcount_def select_inode_def two_links_def example_row_def)

lemma bit_two: "bit (2::64 word) n \<longleftrightarrow> n = 1" "bit (2::32 word) n \<longleftrightarrow> n = 1"
  by (auto simp: bit_2_iff)

lemma low32_is_2:
  "signed_drop_bit 32 (push_bit 32 (v::64 word)) = 2 \<longleftrightarrow> (ucast v :: 32 word) = 2"
proof
  assume a: "signed_drop_bit 32 (push_bit 32 v) = 2"
  show "(ucast v :: 32 word) = 2"
  proof (rule bit_word_eqI)
    fix n assume n: "n < LENGTH(32)"
    have "bit (signed_drop_bit 32 (push_bit 32 v)) n = bit v n"
      using n by (simp add: bit_signed_drop_bit_iff bit_simps)
    with a have "bit v n = bit (2::64 word) n" by simp
    then show "bit (ucast v :: 32 word) n = bit (2::32 word) n"
      using n by (simp add: bit_simps bit_two)
  qed
next
  assume a: "(ucast v :: 32 word) = 2"
  have b: "bit v n = (n = 1)" if "n < 32" for n
  proof -
    have "bit v n = bit (ucast v :: 32 word) n" using that by (simp add: bit_simps)
    also have "\<dots> = bit (2::32 word) n" by (simp only: a)
    also have "\<dots> = (n = 1)" by (rule bit_two)
    finally show ?thesis .
  qed
  show "signed_drop_bit 32 (push_bit 32 v) = 2"
  proof (rule bit_word_eqI)
    fix n assume n: "n < LENGTH(64)"
    show "bit (signed_drop_bit 32 (push_bit 32 v)) n = bit (2::64 word) n"
    proof (cases "n < 32")
      case True
      then show ?thesis using b[of n] by (simp add: bit_signed_drop_bit_iff bit_simps bit_two)
    next
      case False
      then show ?thesis using n b[of 31]
        by (simp add: bit_signed_drop_bit_iff bit_simps bit_two)
    qed
  qed
qed

lemma linkcount_is_2: "Hardlinks2Linkcount v = 2 \<longleftrightarrow> (ucast v :: 32 word) = 2"
proof -
  have e: "(ucast (drop_bit 32 (push_bit 32 v)) :: 32 word) = ucast v"
    by (rule bit_word_eqI) (auto simp: bit_simps)
  show ?thesis
  proof (cases "v = 0")
    case True
    then show ?thesis by (simp add: Hardlinks2Linkcount_def)
  next
    case False
    then show ?thesis unfolding Hardlinks2Linkcount_def using e by (simp only: if_False)
  qed
qed

text \<open>
  What the statement does when the row keyed by the hash exists and holds the hardlinks
  value \<open>v\<close>: every row whose field equals \<open>v\<close> is rewritten, to 0 when the link count
  of \<open>v\<close> is 2 and to \<open>v\<close> plus the delta otherwise; all other rows stay. The
  delta plays no part in the first case.
\<close>

theorem SqlIncLinkcount_effect:
  assumes "select_inode catalog hash = Some v"
  shows "SqlIncLinkcount catalog hash delta =
           map (\<lambda>r. if col_inode r = v
                     then r\<lparr> col_inode := (if Hardlinks2Linkcount v = 2 then 0
                                            else v + scast delta) \<rparr>
                     else r) catalog"
  unfolding SqlIncLinkcount_def assms
  by (simp add: low32_is_2 linkcount_is_2 cong: map_cong)

theorem SqlIncLinkcount_effect_witness:
  "select_inode two_links (1, 2) = Some 0x0000000700000002
   \<and> Hardlinks2Linkcount 0x0000000700000002 = 2
   \<and> SqlIncLinkcount two_links (1, 2) (- 1) = map (\<lambda>r. r\<lparr> col_inode := 0 \<rparr>) two_links"
  using SqlIncLinkcount_effect[of two_links "(1, 2)" "0x0000000700000002" "- 1"]
  by (simp add: select_inode_def two_links_def example_row_def Hardlinks2Linkcount_def)

lemma unat_group: "unat (Hardlinks2HardlinkGroup v) = unat v div 2 ^ 32"
proof -
  have "unat v div 2 ^ 32 < 2 ^ 32"
    using unsigned_less[of v, where 'a=nat] by (simp add: less_mult_imp_div_less)
  moreover have a: "unat (drop_bit 32 v) = unat v div 2 ^ 32"
    by (simp only: unat_drop_bit_eq) (simp add: drop_bit_eq_div)
  ultimately show ?thesis
    unfolding Hardlinks2HardlinkGroup_def unsigned_ucast_eq a
    by (simp add: take_bit_nat_eq_self)
qed

lemma sint_nonneg: "(v::64 word) < 2 ^ 63 \<Longrightarrow> sint v = int (unat v)"
proof -
  assume "v < 2 ^ 63"
  then have a: "uint v < 2 ^ 63" by (simp add: word_less_alt)
  have b: "- (2 ^ 63) \<le> uint v" by (rule order_trans[of _ 0]) simp_all
  have "signed_take_bit 63 (uint v) = uint v"
    by (rule signed_take_bit_int_eq_self[OF b a])
  then show ?thesis by (simp add: sint_uint)
qed

lemma signed_shift_group:
  "(ucast (signed_drop_bit 32 (v :: 64 word)) :: 32 word) = Hardlinks2HardlinkGroup v"
  unfolding Hardlinks2HardlinkGroup_def
  by (rule bit_word_eqI) (auto simp: bit_simps)

lemma fold_max_in:
  "fold (\<lambda>a m. if sint m < sint a then a else m) vs (v::64 word) \<in> set (v # vs)"
  by (induction vs arbitrary: v) auto

lemma fold_max_ge:
  "sint v \<le> sint (fold (\<lambda>a m. if sint m < sint a then a else m) vs (v::64 word))
   \<and> (\<forall>x\<in>set vs. sint x \<le> sint (fold (\<lambda>a m. if sint m < sint a then a else m) vs v))"
proof (induction vs arbitrary: v)
  case Nil
  then show ?case by simp
next
  case (Cons a vs)
  define v' where "v' = (if sint v < sint a then a else v)"
  have step: "sint v \<le> sint v'" "sint a \<le> sint v'" by (simp_all add: v'_def)
  from Cons.IH[of v'] step show ?case
    unfolding fold_simps v'_def[symmetric] by fastforce
qed

lemma sql_max_Some:
  "vs \<noteq> [] \<Longrightarrow> \<exists>m. sql_max vs = Some m \<and> m \<in> set vs \<and> (\<forall>x\<in>set vs. sint x \<le> sint m)"
proof (cases vs)
  case Nil
  assume "vs \<noteq> []" with Nil show ?thesis by simp
next
  case (Cons v vs')
  show ?thesis
    using fold_max_in[of vs' v] fold_max_ge[of v vs']
    unfolding Cons sql_max_def by (simp del: fold_simps)
qed

text \<open>
  C6, as claimed: the query returns the greatest group id of the table, so that the id
  after it is greater than every group id present. This fails where a group id has its
  top bit set: the stored value is then negative for SQLite, \<open>max\<close> prefers the other
  rows, and the id after the result is not above the group id \<open>2^31\<close> of the first row.
\<close>

theorem GetMaxGroupId_counterexample:
  "GetMaxGroupId high_group = 1
   \<and> Hardlinks2HardlinkGroup (col_inode (hd high_group)) = 0x80000000
   \<and> \<not> Hardlinks2HardlinkGroup (col_inode (hd high_group)) < GetMaxGroupId high_group + 1"
  by (simp add: GetMaxGroupId_def sql_max_def RetrieveInt64_def high_group_def
        example_row_def Hardlinks2HardlinkGroup_def)

text \<open>
  C6, amended: on a table that is not empty and whose hardlinks values are all below
  \<open>2^63\<close> (group ids below \<open>2^31\<close>, the values SQLite stores as non-negative
  integers), the query returns the greatest group id of the table, and the id after it
  is greater than every group id present.
\<close>

theorem GetMaxGroupId_nonnegative:
  assumes "catalog \<noteq> []" and "\<forall>r\<in>set catalog. col_inode r < 2 ^ 63"
  shows "GetMaxGroupId catalog
           = Max ((\<lambda>r. Hardlinks2HardlinkGroup (col_inode r)) ` set catalog)
         \<and> (\<forall>r\<in>set catalog.
               Hardlinks2HardlinkGroup (col_inode r) < GetMaxGroupId catalog + 1)"
proof -
  from assms(1) have "map col_inode catalog \<noteq> []" by simp
  from sql_max_Some[OF this] obtain m where
    m: "sql_max (map col_inode catalog) = Some m" "m \<in> col_inode ` set catalog"
       "\<forall>r\<in>set catalog. sint (col_inode r) \<le> sint m"
    by auto
  have gm: "GetMaxGroupId catalog = Hardlinks2HardlinkGroup m"
    by (simp add: GetMaxGroupId_def m(1) RetrieveInt64_def signed_shift_group)
  from m(2) assms(2) have m63: "m < 2 ^ 63" by auto
  have le: "Hardlinks2HardlinkGroup (col_inode r) \<le> Hardlinks2HardlinkGroup m"
    if "r \<in> set catalog" for r
  proof -
    from that m(3) have "sint (col_inode r) \<le> sint m" by simp
    moreover from that assms(2) have "col_inode r < 2 ^ 63" by simp
    ultimately have "col_inode r \<le> m"
      using m63 by (simp add: sint_nonneg word_le_def)
    then show ?thesis
      by (simp add: word_le_nat_alt unat_group div_le_mono)
  qed
  have "Max ((\<lambda>r. Hardlinks2HardlinkGroup (col_inode r)) ` set catalog)
          = Hardlinks2HardlinkGroup m"
  proof (rule Max_eqI)
    show "finite ((\<lambda>r. Hardlinks2HardlinkGroup (col_inode r)) ` set catalog)" by simp
    show "y \<le> Hardlinks2HardlinkGroup m"
      if "y \<in> (\<lambda>r. Hardlinks2HardlinkGroup (col_inode r)) ` set catalog" for y
      using that le by auto
    show "Hardlinks2HardlinkGroup m
            \<in> (\<lambda>r. Hardlinks2HardlinkGroup (col_inode r)) ` set catalog"
      using m(2) by auto
  qed
  moreover have "Hardlinks2HardlinkGroup (col_inode r) < Hardlinks2HardlinkGroup m + 1"
    if "r \<in> set catalog" for r
  proof -
    from m63 have "unat m < 2 ^ 63" by (simp add: word_less_nat_alt)
    then have "unat (Hardlinks2HardlinkGroup m) < 2 ^ 31"
      by (simp add: unat_group less_mult_imp_div_less)
    then have "unat (Hardlinks2HardlinkGroup m + 1) = unat (Hardlinks2HardlinkGroup m) + 1"
      by (simp add: unat_word_ariths)
    with le[OF that] show ?thesis
      by (simp add: word_less_nat_alt word_le_nat_alt)
  qed
  ultimately show ?thesis using gm by simp
qed

theorem GetMaxGroupId_nonnegative_witness:
  "two_links @ [example_row] \<noteq> []
   \<and> list_all (\<lambda>r. col_inode r < 2 ^ 63) (two_links @ [example_row])
   \<and> GetMaxGroupId (two_links @ [example_row])
       = Max ((\<lambda>r. Hardlinks2HardlinkGroup (col_inode r)) ` set (two_links @ [example_row]))
   \<and> GetMaxGroupId (two_links @ [example_row]) = 7
   \<and> list_all (\<lambda>r. Hardlinks2HardlinkGroup (col_inode r) < 8) (two_links @ [example_row])"
  using GetMaxGroupId_nonnegative [of "two_links @ [example_row]"]
  by (simp add: two_links_def example_row_def GetMaxGroupId_def sql_max_def RetrieveInt64_def
        Hardlinks2HardlinkGroup_def)

section \<open>Properties of the LRU cache\<close>

subsection \<open>The list operations on a well-formed list\<close>

lemma path_append: "path f x (as @ bs) y = (\<exists>z. path f x as z \<and> path f z bs y)"
  by (induction as arbitrary: x) (auto split: option.splits)

lemma path_frame: "a \<notin> set as \<Longrightarrow> path (f(a := v)) x as y = path f x as y"
  by (induction as arbitrary: x) (auto split: option.splits)

lemma path_start: "path f x as y \<Longrightarrow> x = hd (as @ [y])"
  by (cases as) auto

lemma path_snoc: "path f x (as @ [b]) y = (path f x as b \<and> f b = Some y)"
  by (auto simp: path_append split: option.splits)

lemma path_dom: "path f x as y \<Longrightarrow> set as \<subseteq> dom f"
  by (induction as arbitrary: x) (auto split: option.splits)

text \<open>Taking \<open>e\<close> out of a cycle through the head: its neighbours are linked to each
  other.\<close>

lemma path_remove:
  assumes "path f head (head # xs @ e # ys) head" "distinct (head # xs @ e # ys)"
  shows "f e = Some (hd (ys @ [head]))" "f (last (head # xs)) = Some e"
        "\<And>v. path (f(last (head # xs) \<mapsto> hd (ys @ [head]), e := v)) head (head # xs @ ys) head"
proof -
  define bs where "bs = butlast (head # xs)"
  define P where "P = last (head # xs)"
  have hx: "head # xs = bs @ [P]" by (simp add: bs_def P_def)
  from assms(1) have "path f head (bs @ [P] @ e # ys) head"
    by (metis hx append_Cons append_assoc append_Nil)
  then obtain N where p: "path f head bs P" "f P = Some e" "f e = Some N" "path f N ys head"
    by (auto simp: path_append split: option.splits)
  from p(4) have N: "N = hd (ys @ [head])" by (rule path_start)
  from assms(2) have d: "distinct (bs @ [P] @ e # ys)"
    by (metis hx append_Cons append_assoc append_Nil)
  show "f e = Some (hd (ys @ [head]))" using p(3) N by simp
  show "f (last (head # xs)) = Some e" using p(2) P_def by simp
  have "path (f(P \<mapsto> N, e := v)) head (bs @ [P] @ ys) head" for v
    using p d by (auto simp: path_append path_frame)
  then show "path (f(last (head # xs) \<mapsto> hd (ys @ [head]), e := v)) head (head # xs @ ys) head" for v
    unfolding N P_def[symmetric] by (metis hx append_Cons append_assoc append_Nil)
qed

text \<open>Putting a new \<open>e\<close> in front of the head, at the end of the cycle.\<close>

lemma path_insert_back:
  assumes "path f head (head # as) head" "distinct (head # as)" "e \<notin> set (head # as)"
  shows "f (last (head # as)) = Some head"
    "path (f(e \<mapsto> head, last (head # as) \<mapsto> e)) head (head # as @ [e]) head"
proof -
  define bs where "bs = butlast (head # as)"
  define L where "L = last (head # as)"
  have hx: "head # as = bs @ [L]" by (simp add: bs_def L_def)
  from assms(1) have p: "path f head bs L" "f L = Some head"
    unfolding hx by (auto simp: path_snoc)
  from assms(2,3) have d: "distinct (bs @ [L])" "e \<notin> set (bs @ [L])" unfolding hx by auto
  show "f (last (head # as)) = Some head" using p(2) L_def by simp
  have "path (f(e \<mapsto> head, L \<mapsto> e)) head ((bs @ [L]) @ [e]) head"
    using p d by (auto simp: path_append path_frame)
  then show "path (f(e \<mapsto> head, last (head # as) \<mapsto> e)) head (head # as @ [e]) head"
    unfolding L_def[symmetric] hx[symmetric] by simp
qed

text \<open>The same insertion, seen along the pointers in the other direction.\<close>

lemma path_insert_front:
  assumes "path f head (head # bs) head" "distinct (head # bs)" "e \<notin> set (head # bs)"
  shows "f head = Some (hd (bs @ [head]))"
    "path (f(e \<mapsto> hd (bs @ [head]), head \<mapsto> e)) head (head # e # bs) head"
proof -
  from assms(1) obtain z where z: "f head = Some z" "path f z bs head"
    by (auto split: option.splits)
  from z(2) have zz: "z = hd (bs @ [head])" by (rule path_start)
  show "f head = Some (hd (bs @ [head]))" using z zz by simp
  show "path (f(e \<mapsto> hd (bs @ [head]), head \<mapsto> e)) head (head # e # bs) head"
    using z zz assms(2,3) by (auto simp: path_frame)
qed

lemmas entry_defs =
  c_assert_def get_next_def get_prev_def set_next_def set_prev_def isListHead_def isLonely_def
  getContent_def

lemma insertAsPredecessor_exec:
  assumes "h e = Some en" "next_ptr en = e" "prev_ptr en = e" "mContent en \<noteq> None"
    and "get_prev h this = Some L" "L \<in> dom h" "this \<noteq> e" "L \<noteq> e"
  shows "\<exists>h'. insertAsPredecessor this e h = Some h'
           \<and> get_next h' = (get_next h)(e \<mapsto> this, L \<mapsto> e)
           \<and> get_prev h' = (get_prev h)(e \<mapsto> L, this \<mapsto> e)
           \<and> (\<forall>a. map_option mContent (h' a) = map_option mContent (h a))"
proof -
  from assms(5) obtain te where te: "h this = Some te" "prev_ptr te = L"
    by (auto simp: get_prev_def)
  from assms(6) obtain Le where Le: "h L = Some Le" by auto
  show ?thesis
  proof (cases "L = this")
    case True
    define h' where "h' = h(e \<mapsto> en\<lparr> next_ptr := this, prev_ptr := this \<rparr>,
                            this \<mapsto> te\<lparr> next_ptr := e, prev_ptr := e \<rparr>)"
    have "insertAsPredecessor this e h = Some h'"
      using assms te True by (simp add: insertAsPredecessor_def entry_defs h'_def)
    moreover have "get_next h' = (get_next h)(e \<mapsto> this, L \<mapsto> e)"
      "get_prev h' = (get_prev h)(e \<mapsto> L, this \<mapsto> e)"
      "\<forall>a. map_option mContent (h' a) = map_option mContent (h a)"
      using assms te True by (auto simp: entry_defs h'_def fun_eq_iff)
    ultimately show ?thesis by blast
  next
    case False
    define h' where "h' = h(e \<mapsto> en\<lparr> next_ptr := this, prev_ptr := L \<rparr>,
                            L \<mapsto> Le\<lparr> next_ptr := e \<rparr>, this \<mapsto> te\<lparr> prev_ptr := e \<rparr>)"
    have "insertAsPredecessor this e h = Some h'"
      using assms te Le False by (simp add: insertAsPredecessor_def entry_defs h'_def)
    moreover have "get_next h' = (get_next h)(e \<mapsto> this, L \<mapsto> e)"
      "get_prev h' = (get_prev h)(e \<mapsto> L, this \<mapsto> e)"
      "\<forall>a. map_option mContent (h' a) = map_option mContent (h a)"
      using assms te Le False by (auto simp: entry_defs h'_def fun_eq_iff)
    ultimately show ?thesis by blast
  qed
qed

lemma removeFromList_exec:
  assumes "h e = Some en" "mContent en \<noteq> None" "next_ptr en = N" "prev_ptr en = P"
    and "P \<in> dom h" "N \<in> dom h" "P \<noteq> e" "N \<noteq> e"
  shows "\<exists>h'. removeFromList e h = Some h'
           \<and> get_next h' = (get_next h)(P \<mapsto> N, e \<mapsto> e)
           \<and> get_prev h' = (get_prev h)(N \<mapsto> P, e \<mapsto> e)
           \<and> (\<forall>a. map_option mContent (h' a) = map_option mContent (h a))"
proof -
  from assms(5) obtain Pe where Pe: "h P = Some Pe" by auto
  from assms(6) obtain Ne where Ne: "h N = Some Ne" by auto
  show ?thesis
  proof (cases "N = P")
    case True
    define h' where "h' = h(P \<mapsto> Pe\<lparr> next_ptr := N, prev_ptr := P \<rparr>,
                            e \<mapsto> en\<lparr> next_ptr := e, prev_ptr := e \<rparr>)"
    have "removeFromList e h = Some h'"
      using assms Pe True by (simp add: removeFromList_def entry_defs h'_def)
    moreover have "get_next h' = (get_next h)(P \<mapsto> N, e \<mapsto> e)"
      "get_prev h' = (get_prev h)(N \<mapsto> P, e \<mapsto> e)"
      "\<forall>a. map_option mContent (h' a) = map_option mContent (h a)"
      using assms Pe True by (auto simp: entry_defs h'_def fun_eq_iff)
    ultimately show ?thesis by blast
  next
    case False
    define h' where "h' = h(P \<mapsto> Pe\<lparr> next_ptr := N \<rparr>, N \<mapsto> Ne\<lparr> prev_ptr := P \<rparr>,
                            e \<mapsto> en\<lparr> next_ptr := e, prev_ptr := e \<rparr>)"
    have "removeFromList e h = Some h'"
      using assms Pe Ne False by (simp add: removeFromList_def entry_defs h'_def)
    moreover have "get_next h' = (get_next h)(P \<mapsto> N, e \<mapsto> e)"
      "get_prev h' = (get_prev h)(N \<mapsto> P, e \<mapsto> e)"
      "\<forall>a. map_option mContent (h' a) = map_option mContent (h a)"
      using assms Pe Ne False by (auto simp: entry_defs h'_def fun_eq_iff)
    ultimately show ?thesis by blast
  qed
qed

lemma hd_rev_snoc: "hd (rev as @ [x]) = last (x # as)"
  by (cases as rule: rev_cases) auto

lemma last_rev_cons: "last (x # rev ys) = hd (ys @ [x])"
  by (cases ys) auto

lemma get_next_delete: "get_next (h(a := None)) = (get_next h)(a := None)"
  by (auto simp: get_next_def fun_eq_iff)

lemma get_prev_delete: "get_prev (h(a := None)) = (get_prev h)(a := None)"
  by (auto simp: get_prev_def fun_eq_iff)

lemma dom_get_next: "dom (get_next h) = dom h"
  by (auto simp: get_next_def)

lemma ring_dom: "ring h head as \<Longrightarrow> set (head # as) \<subseteq> dom h"
  using path_dom[of "get_next h" head "head # as" head] by (simp add: ring_def dom_get_next)

lemma ring_delete: "ring h head as \<Longrightarrow> a \<notin> set (head # as) \<Longrightarrow> ring (h(a := None)) head as"
  unfolding ring_def get_next_delete get_prev_delete
  by (simp add: path_frame del: path.simps)

lemma ring_insert:
  assumes "ring h head as" "e \<notin> set (head # as)"
    and "h e = Some en" "next_ptr en = e" "prev_ptr en = e" "mContent en \<noteq> None"
  shows "\<exists>h'. insertAsPredecessor head e h = Some h' \<and> ring h' head (as @ [e])
           \<and> (\<forall>a. map_option mContent (h' a) = map_option mContent (h a))"
proof -
  define L where "L = last (head # as)"
  from assms(1) have d: "distinct (head # as)"
    and pn: "path (get_next h) head (head # as) head"
    and pp: "path (get_prev h) head (head # rev as) head"
    by (auto simp: ring_def)
  have d': "distinct (head # rev as)" "e \<notin> set (head # rev as)" using d assms(2) by auto
  have prevL: "get_prev h head = Some L"
    using path_insert_front(1)[OF pp d'] by (simp add: hd_rev_snoc L_def)
  have "L \<in> set (head # as)" unfolding L_def by (rule last_in_set) simp
  with ring_dom[OF assms(1)] assms(2) have L: "L \<in> dom h" "L \<noteq> e" by auto
  from assms(2) have "head \<noteq> e" by auto
  from insertAsPredecessor_exec[OF assms(3-6) prevL L(1) this L(2)]
  obtain h' where h': "insertAsPredecessor head e h = Some h'"
    "get_next h' = (get_next h)(e \<mapsto> head, L \<mapsto> e)"
    "get_prev h' = (get_prev h)(e \<mapsto> L, head \<mapsto> e)"
    "\<forall>a. map_option mContent (h' a) = map_option mContent (h a)"
    by blast
  have "path (get_next h') head (head # as @ [e]) head"
    unfolding h'(2) L_def by (rule path_insert_back(2)[OF pn d assms(2)])
  moreover have "path (get_prev h') head (head # rev (as @ [e])) head"
    using path_insert_front(2)[OF pp d']
    by (simp only: h'(3) L_def hd_rev_snoc rev_append rev.simps append_Cons append_Nil)
  ultimately have "ring h' head (as @ [e])"
    using d assms(2) by (simp add: ring_def)
  with h'(1,4) show ?thesis by blast
qed

lemma ring_remove:
  assumes "ring h head (xs @ e # ys)" "h e = Some en" "mContent en \<noteq> None"
  shows "\<exists>h' en'. removeFromList e h = Some h' \<and> ring h' head (xs @ ys)
           \<and> isLonely h e = Some False
           \<and> h' e = Some en' \<and> next_ptr en' = e \<and> prev_ptr en' = e
           \<and> (\<forall>a. map_option mContent (h' a) = map_option mContent (h a))"
proof -
  define P where "P = last (head # xs)"
  define N where "N = hd (ys @ [head])"
  from assms(1) have d: "distinct (head # xs @ e # ys)"
    and pn: "path (get_next h) head (head # xs @ e # ys) head"
    and pp: "path (get_prev h) head (head # rev ys @ e # rev xs) head"
    by (auto simp: ring_def)
  have d': "distinct (head # rev ys @ e # rev xs)" using d by auto
  note n = path_remove[OF pn d]
  note p = path_remove[OF pp d']
  have ne: "next_ptr en = N" "prev_ptr en = P"
    using n(1) p(1) assms(2) by (auto simp: get_next_def get_prev_def N_def P_def hd_rev_snoc)
  have "P \<in> set (head # xs)" unfolding P_def by (rule last_in_set) simp
  moreover have "N \<in> set (ys @ [head])" unfolding N_def by (rule hd_in_set) simp
  ultimately have PN: "P \<in> dom h" "N \<in> dom h" "P \<noteq> e" "N \<noteq> e"
    using ring_dom[OF assms(1)] d by auto
  from removeFromList_exec[OF assms(2,3) ne PN]
  obtain h' where h': "removeFromList e h = Some h'"
    "get_next h' = (get_next h)(P \<mapsto> N, e \<mapsto> e)"
    "get_prev h' = (get_prev h)(N \<mapsto> P, e \<mapsto> e)"
    "\<forall>a. map_option mContent (h' a) = map_option mContent (h a)"
    by blast
  have "path (get_next h') head (head # xs @ ys) head"
    using n(3)[of "Some e"] by (simp only: h'(2) P_def N_def)
  moreover have "path (get_prev h') head (head # rev (xs @ ys)) head"
    using p(3)[of "Some e"]
    by (simp only: h'(3) P_def N_def last_rev_cons hd_rev_snoc rev_append)
  ultimately have r: "ring h' head (xs @ ys)" using d by (simp add: ring_def)
  have lonely: "isLonely h e = Some False"
    using assms(2) ne PN by (simp add: isLonely_def get_next_def get_prev_def)
  have "get_next h' e = Some e" "get_prev h' e = Some e"
    by (simp_all add: h'(2,3))
  then obtain en' where "h' e = Some en'" "next_ptr en' = e" "prev_ptr en' = e"
    by (auto simp: get_next_def get_prev_def)
  with h'(1,4) r lonely show ?thesis by blast
qed

lemma lru_listI:
  assumes "ring h head (map fst es)" "isListHead h head = Some True"
    and "\<And>a k. (a, k) \<in> set es \<Longrightarrow> getContent h a = Some k"
  shows "lru_list h head es"
  using assms by (simp add: lru_list_def)

lemma lru_listD:
  assumes "lru_list h head es"
  shows "ring h head (map fst es)" "isListHead h head = Some True"
    and "\<And>a k. (a, k) \<in> set es \<Longrightarrow> getContent h a = Some k"
  using assms by (simp_all add: lru_list_def)

lemma contents_same:
  assumes "\<forall>a. map_option mContent (h' a) = map_option mContent (h a)"
  shows "getContent h' = getContent h" "isListHead h' = isListHead h" "dom h' = dom h"
proof -
  have a: "map_option mContent (h' a) = map_option mContent (h a)" for a using assms by simp
  show "getContent h' = getContent h"
  proof
    fix x show "getContent h' x = getContent h x"
      using a[of x] by (cases "h x"; cases "h' x") (auto simp: getContent_def)
  qed
  show "isListHead h' = isListHead h"
  proof
    fix x show "isListHead h' x = isListHead h x"
      using a[of x] by (cases "h x"; cases "h' x") (auto simp: isListHead_def)
  qed
  show "dom h' = dom h"
  proof (rule set_eqI)
    fix x show "x \<in> dom h' \<longleftrightarrow> x \<in> dom h"
      using a[of x] by (cases "h x"; cases "h' x") auto
  qed
qed

lemma getContent_entry: "getContent h a = Some k \<Longrightarrow> \<exists>en. h a = Some en \<and> mContent en = Some k"
  by (cases "h a") (auto simp: getContent_def)

lemma getContent_other: "b \<noteq> a \<Longrightarrow> getContent (h(a := x)) b = getContent h b"
  by (simp add: getContent_def)

lemma isListHead_other: "b \<noteq> a \<Longrightarrow> isListHead (h(a := x)) b = isListHead h b"
  by (simp add: isListHead_def)

lemma push_back_spec:
  assumes "lru_list h head es" "fresh \<notin> dom h"
  shows "\<exists>h'. push_back head k (h, fresh) = Some (fresh, h', Suc fresh)
           \<and> lru_list h' head (es @ [(fresh, k)]) \<and> dom h' = insert fresh (dom h)"
proof -
  define h0 where "h0 = h(fresh \<mapsto> \<lparr> next_ptr = fresh, prev_ptr = fresh, mContent = Some k \<rparr>)"
  note l = lru_listD[OF assms(1)]
  from ring_dom[OF l(1)] assms(2) have nin: "fresh \<notin> set (head # map fst es)" by auto
  have "get_next h0 = (get_next h)(fresh \<mapsto> fresh)" "get_prev h0 = (get_prev h)(fresh \<mapsto> fresh)"
    by (auto simp: h0_def get_next_def get_prev_def fun_eq_iff)
  with l(1) nin have r0: "ring h0 head (map fst es)"
    by (simp add: ring_def path_frame del: path.simps)
  from ring_insert[OF r0 nin, of "\<lparr> next_ptr = fresh, prev_ptr = fresh, mContent = Some k \<rparr>"]
  obtain h' where h': "insertAsPredecessor head fresh h0 = Some h'"
    "ring h' head (map fst es @ [fresh])"
    "\<forall>a. map_option mContent (h' a) = map_option mContent (h0 a)"
    by (auto simp: h0_def)
  note same = contents_same[OF h'(3)]
  have "push_back head k (h, fresh) = Some (fresh, h', Suc fresh)"
    using h'(1) by (simp add: push_back_def h0_def)
  moreover have "lru_list h' head (es @ [(fresh, k)])"
  proof (rule lru_listI)
    show "ring h' head (map fst (es @ [(fresh, k)]))" using h'(2) by simp
    from nin have "head \<noteq> fresh" by auto
    then show "isListHead h' head = Some True"
      unfolding same h0_def using l(2) by (simp add: isListHead_other)
    fix a k' assume "(a, k') \<in> set (es @ [(fresh, k)])"
    then consider "(a, k') \<in> set es" | "a = fresh" "k' = k" by auto
    then show "getContent h' a = Some k'"
    proof cases
      case 1
      with nin have "a \<noteq> fresh" by force
      with l(3)[OF 1] show ?thesis unfolding same h0_def by (simp add: getContent_other)
    next
      case 2
      then show ?thesis unfolding same h0_def by (simp add: getContent_def)
    qed
  qed
  moreover have "dom h' = insert fresh (dom h)" unfolding same by (simp add: h0_def)
  ultimately show ?thesis by blast
qed

lemma ring_first:
  assumes "ring h head (a # as)"
  shows "get_next h head = Some a" "isLonely h head = Some False"
proof -
  from assms show n: "get_next h head = Some a"
    by (auto simp: ring_def split: option.splits dest: path_start)
  from assms have "a \<noteq> head" by (auto simp: ring_def)
  moreover from assms have "get_prev h head \<noteq> None"
    by (auto simp: ring_def split: option.splits)
  ultimately show "isLonely h head = Some False"
    using n by (auto simp: isLonely_def)
qed

lemma pop_front_spec:
  assumes "lru_list h head ((a, k) # es)"
  shows "\<exists>h'. pop_front head h = Some (k, h') \<and> lru_list h' head es \<and> dom h' = dom h - {a}"
proof -
  note l = lru_listD[OF assms]
  from l(1) have r: "ring h head ([] @ a # map fst es)" by simp
  from getContent_entry[OF l(3)[of a k]]
  obtain en where en: "h a = Some en" "mContent en = Some k" by auto
  then have en': "mContent en \<noteq> None" by simp
  from ring_remove[OF r en(1) en']
  obtain h1 where h1: "removeFromList a h = Some h1" "ring h1 head (map fst es)"
    "\<forall>b. map_option mContent (h1 b) = map_option mContent (h b)"
    by auto
  note same = contents_same[OF h1(3)]
  from l(1) have fst: "get_next h head = Some a" "isLonely h head = Some False"
    using ring_first[of h head a "map fst es"] by simp_all
  from l(1) have nin: "a \<notin> set (head # map fst es)" by (auto simp: ring_def)
  have c: "getContent h1 a = Some k" unfolding same using en by (simp add: getContent_def)
  have "pop_front head h = Some (k, h1(a := None))"
    using fst h1(1) en c by (simp add: pop_front_def pop_def c_assert_def isListHead_def)
  moreover have "lru_list (h1(a := None)) head es"
  proof (rule lru_listI)
    show "ring (h1(a := None)) head (map fst es)" by (rule ring_delete[OF h1(2) nin])
    from nin have "head \<noteq> a" by auto
    then show "isListHead (h1(a := None)) head = Some True"
      using l(2) by (simp add: isListHead_other same)
    fix b k' assume "(b, k') \<in> set es"
    moreover from this nin have "b \<noteq> a" by force
    ultimately show "getContent (h1(a := None)) b = Some k'"
      using l(3)[of b k'] by (simp add: getContent_other same)
  qed
  moreover have "dom (h1(a := None)) = dom h - {a}" using same(3) by auto
  ultimately show ?thesis by blast
qed

lemma moveToBack_spec:
  assumes "lru_list h head (xs @ (a, k) # ys)"
  shows "\<exists>h'. moveToBack head a h = Some h' \<and> lru_list h' head (xs @ ys @ [(a, k)])
           \<and> dom h' = dom h"
proof -
  note l = lru_listD[OF assms]
  from l(1) have r: "ring h head (map fst xs @ a # map fst ys)" by simp
  from getContent_entry[OF l(3)[of a k]]
  obtain en where en: "h a = Some en" "mContent en = Some k" by auto
  then have en': "mContent en \<noteq> None" by simp
  from ring_remove[OF r en(1) en']
  obtain h1 en1 where h1: "removeFromList a h = Some h1"
    "ring h1 head (map fst xs @ map fst ys)" "isLonely h a = Some False"
    "h1 a = Some en1" "next_ptr en1 = a" "prev_ptr en1 = a"
    "\<forall>b. map_option mContent (h1 b) = map_option mContent (h b)"
    by auto
  note same1 = contents_same[OF h1(7)]
  from r have nin: "a \<notin> set (head # map fst xs @ map fst ys)" by (auto simp: ring_def)
  have "getContent h1 a = Some k" unfolding same1 using en by (simp add: getContent_def)
  with h1(4) have c1: "mContent en1 \<noteq> None" by (simp add: getContent_def)
  from ring_insert[OF h1(2) nin h1(4,5,6) c1]
  obtain h' where h': "insertAsPredecessor head a h1 = Some h'"
    "ring h' head ((map fst xs @ map fst ys) @ [a])"
    "\<forall>b. map_option mContent (h' b) = map_option mContent (h1 b)"
    by auto
  note same = contents_same[OF h'(3)]
  have "moveToBack head a h = Some h'"
    using h1(1,3) h'(1) by (simp add: moveToBack_def c_assert_def)
  moreover have "lru_list h' head (xs @ ys @ [(a, k)])"
  proof (rule lru_listI)
    show "ring h' head (map fst (xs @ ys @ [(a, k)]))" using h'(2) by simp
    show "isListHead h' head = Some True" using l(2) by (simp add: same same1)
    fix b k' assume "(b, k') \<in> set (xs @ ys @ [(a, k)])"
    then have "(b, k') \<in> set (xs @ (a, k) # ys)" by auto
    from l(3)[OF this] show "getContent h' b = Some k'" by (simp add: same same1)
  qed
  moreover have "dom h' = dom h" by (simp add: same same1)
  ultimately show ?thesis by blast
qed

lemma clear_loop_path:
  assumes "path (get_next h) x as head" "distinct as" "head \<notin> set as"
    and "isListHead h head = Some True" "\<forall>a\<in>set as. isListHead h a = Some False"
  shows "clear_loop h x = Some (\<lambda>a. if a \<in> set as then None else h a)"
  using assms
proof (induction as arbitrary: h x)
  case Nil
  then show ?case
    by (subst clear_loop.simps) (auto simp: isListHead_def)
next
  case (Cons a as)
  from Cons.prems(1) obtain z where x: "x = a" and z: "get_next h a = Some z"
    and p: "path (get_next h) z as head"
    by (auto split: option.splits)
  from Cons.prems(5) have "isListHead h a = Some False" by simp
  with z obtain e k where e: "h a = Some e" "mContent e = Some k" "next_ptr e = z"
    by (auto simp: isListHead_def get_next_def)
  from Cons.prems(2,3) have na: "a \<notin> set as" "head \<noteq> a" "distinct as" "head \<notin> set as"
    by auto
  have "clear_loop (h(a := None)) z
          = Some (\<lambda>b. if b \<in> set as then None else (h(a := None)) b)"
  proof (rule Cons.IH)
    show "path (get_next (h(a := None))) z as head"
      using p na(1) by (simp add: get_next_delete path_frame)
    show "distinct as" "head \<notin> set as" by fact+
    show "isListHead (h(a := None)) head = Some True"
      using Cons.prems(4) na(2) by (simp add: isListHead_other)
    show "\<forall>b\<in>set as. isListHead (h(a := None)) b = Some False"
      using Cons.prems(5) na(1) by (auto simp: isListHead_def)
  qed
  moreover have "(\<lambda>b. if b \<in> set as then None else (h(a := None)) b)
                   = (\<lambda>b. if b \<in> set (a # as) then None else h b)"
    by auto
  ultimately show ?case
    unfolding x using e by (subst clear_loop.simps) simp
qed

lemma clear_spec:
  assumes "lru_list h head es"
  shows "\<exists>h'. clear head h = Some h' \<and> lru_list h' head [] \<and> dom h' = dom h - fst ` set es"
proof -
  define as where "as = map fst es"
  note l = lru_listD[OF assms]
  from l(1) have d: "distinct as" "head \<notin> set as"
    and pn: "path (get_next h) head (head # as) head"
    by (auto simp: ring_def as_def)
  from pn obtain z where z: "get_next h head = Some z" "path (get_next h) z as head"
    by (auto split: option.splits)
  have heads: "\<forall>a\<in>set as. isListHead h a = Some False"
  proof
    fix a assume "a \<in> set as"
    then obtain k where "(a, k) \<in> set es" by (auto simp: as_def)
    from getContent_entry[OF l(3)[OF this]] show "isListHead h a = Some False"
      by (auto simp: isListHead_def)
  qed
  define h1 where "h1 = (\<lambda>a. if a \<in> set as then None else h a)"
  have loop: "clear_loop h z = Some h1"
    unfolding h1_def by (rule clear_loop_path[OF z(2) d l(2) heads])
  from l(2) obtain e where e: "h head = Some e" "mContent e = None"
    by (auto simp: isListHead_def)
  with d(2) have h1h: "h1 head = Some e" by (simp add: h1_def)
  define h' where "h' = h1(head \<mapsto> e\<lparr> next_ptr := head, prev_ptr := head \<rparr>)"
  have "clear head h = Some h'"
    using z(1) loop h1h by (simp add: clear_def set_next_def set_prev_def h'_def)
  moreover have "lru_list h' head []"
    using e by (simp add: lru_list_def ring_def h'_def get_next_def get_prev_def isListHead_def)
  moreover have "dom h' = dom h - fst ` set es"
  proof -
    have "dom h1 = dom h - set as"
      by (auto simp: h1_def split: if_splits)
    moreover have "dom h' = insert head (dom h1)" by (simp add: h'_def)
    moreover have "head \<in> dom h" using e(1) by auto
    moreover have "set as = fst ` set es" by (simp add: as_def)
    ultimately show ?thesis using d(2) by auto
  qed
  ultimately show ?thesis by blast
qed

subsection \<open>The cache operations keep the cache well-formed\<close>

lemma cache_absD:
  assumes "cache_abs c es"
  shows "lru_list (memory c) (mLruList c) (map (\<lambda>e. (fst e, fst (snd e))) es)"
    and "distinct (map (\<lambda>e. fst (snd e)) es)"
    and "\<And>k a v. mCache c k = Some (a, v) \<longleftrightarrow> (a, k, v) \<in> set es"
    and "unat (mCurrentCacheSize c) = length es"
    and "mCurrentCacheSize c \<le> mMaxCacheSize c"
    and "0 < mMaxCacheSize c"
    and "\<And>a. a \<in> dom (memory c) \<Longrightarrow> a < fresh_address c"
  using assms by (simp_all add: cache_abs_def)

lemma cache_absI:
  assumes "lru_list (memory c) (mLruList c) (map (\<lambda>e. (fst e, fst (snd e))) es)"
    and "distinct (map (\<lambda>e. fst (snd e)) es)"
    and "\<And>k a v. mCache c k = Some (a, v) \<longleftrightarrow> (a, k, v) \<in> set es"
    and "unat (mCurrentCacheSize c) = length es"
    and "mCurrentCacheSize c \<le> mMaxCacheSize c"
    and "0 < mMaxCacheSize c"
    and "\<And>a. a \<in> dom (memory c) \<Longrightarrow> a < fresh_address c"
  shows "cache_abs c es"
  using assms by (simp add: cache_abs_def)

lemma word_inc_below:
  fixes n m :: "32 word"
  assumes "\<not> m \<le> n"
  shows "unat (n + 1) = Suc (unat n)" "n + 1 \<le> m"
proof -
  from assms have lt: "unat n < unat m" by (simp add: word_le_nat_alt)
  have "unat m < 2 ^ 32" using unsigned_less[of m, where 'a=nat] by simp
  with lt have "unat n + unat (1::32 word) < 2 ^ LENGTH(32)" by simp
  then have "unat (n + 1) = unat n + unat (1::32 word)" by (simp only: unat_add_lem)
  then show a: "unat (n + 1) = Suc (unat n)" by simp
  with lt show "n + 1 \<le> m" by (simp add: word_le_nat_alt)
qed

lemma word_dec_above:
  fixes n m :: "32 word"
  assumes "n \<noteq> 0" "n \<le> m"
  shows "unat (n - 1) = unat n - 1" "n - 1 \<le> m"
proof -
  show a: "unat (n - 1) = unat n - 1" using assms(1) by (simp add: unat_minus_one)
  with assms(2) show "n - 1 \<le> m" by (simp add: word_le_nat_alt)
qed

lemma LruCache_new_abs:
  assumes "0 < n"
  shows "\<exists>c. LruCache_new n = Some c \<and> cache_abs c [] \<and> mMaxCacheSize c = n"
  using assms
  by (simp add: LruCache_new_def c_assert_def cache_abs_def lru_list_def ring_def
        get_next_def get_prev_def isListHead_def)

lemma deleteOldestEntry_abs:
  assumes "cache_abs c ((a, k, v) # es)"
  shows "\<exists>c'. deleteOldestEntry c = Some c' \<and> cache_abs c' es
           \<and> mMaxCacheSize c' = mMaxCacheSize c"
proof -
  note ca = cache_absD[OF assms]
  from ca(1) have l: "lru_list (memory c) (mLruList c) ((a, k) # map (\<lambda>e. (fst e, fst (snd e))) es)"
    by simp
  from pop_front_spec[OF l] obtain h' where h': "pop_front (mLruList c) (memory c) = Some (k, h')"
    "lru_list h' (mLruList c) (map (\<lambda>e. (fst e, fst (snd e))) es)" "dom h' = dom (memory c) - {a}"
    by blast
  from ca(4) have nz: "mCurrentCacheSize c \<noteq> 0" by (intro notI) simp
  define c' where "c' = c\<lparr> memory := h', mCache := (mCache c)(k := None),
                          mCurrentCacheSize := mCurrentCacheSize c - 1 \<rparr>"
  have "deleteOldestEntry c = Some c'"
    using nz h'(1) by (simp add: deleteOldestEntry_def c_assert_def isEmpty_def c'_def)
  moreover have "cache_abs c' es"
  proof (rule cache_absI)
    show "lru_list (memory c') (mLruList c') (map (\<lambda>e. (fst e, fst (snd e))) es)"
      using h'(2) by (simp add: c'_def)
    show "distinct (map (\<lambda>e. fst (snd e)) es)" using ca(2) by simp
    show "mCache c' k' = Some (a', v') \<longleftrightarrow> (a', k', v') \<in> set es" for k' a' v'
    proof (cases "k' = k")
      case True
      from ca(2) have "k \<notin> (\<lambda>e. fst (snd e)) ` set es" by simp
      then have "(a', k, v') \<notin> set es" by force
      with True show ?thesis by (simp add: c'_def)
    next
      case False
      then show ?thesis using ca(3)[of k' a' v'] by (simp add: c'_def)
    qed
    show "unat (mCurrentCacheSize c') = length es"
      using word_dec_above(1)[OF nz ca(5)] ca(4) by (simp add: c'_def)
    show "mCurrentCacheSize c' \<le> mMaxCacheSize c'"
      using word_dec_above(2)[OF nz ca(5)] by (simp add: c'_def)
    show "0 < mMaxCacheSize c'" using ca(6) by (simp add: c'_def)
    show "a' < fresh_address c'" if "a' \<in> dom (memory c')" for a'
      using that h'(3) ca(7)[of a'] by (simp add: c'_def)
  qed
  moreover have "mMaxCacheSize c' = mMaxCacheSize c" by (simp add: c'_def)
  ultimately show ?thesis by blast
qed

lemma insertNewEntry_abs:
  assumes "cache_abs c es" "\<not> isFull c" "mCache c k = None"
  shows "\<exists>c'. insertNewEntry k v c = Some c' \<and> cache_abs c' (es @ [(fresh_address c, k, v)])
           \<and> mMaxCacheSize c' = mMaxCacheSize c"
proof -
  note ca = cache_absD[OF assms(1)]
  have fresh: "fresh_address c \<notin> dom (memory c)" using ca(7)[of "fresh_address c"] by auto
  from push_back_spec[OF ca(1) fresh, of k]
  obtain h' where h': "push_back (mLruList c) k (memory c, fresh_address c)
                         = Some (fresh_address c, h', Suc (fresh_address c))"
    "lru_list h' (mLruList c) (map (\<lambda>e. (fst e, fst (snd e))) es @ [(fresh_address c, k)])"
    "dom h' = insert (fresh_address c) (dom (memory c))"
    by blast
  define c' where "c' = c\<lparr> memory := h', fresh_address := Suc (fresh_address c),
              mCache := (mCache c)(k \<mapsto> (fresh_address c, v)),
              mCurrentCacheSize := mCurrentCacheSize c + 1 \<rparr>"
  from assms(2) have nf: "\<not> mMaxCacheSize c \<le> mCurrentCacheSize c" by (simp add: isFull_def)
  have "insertNewEntry k v c = Some c'"
    using assms(2) h'(1) by (simp add: insertNewEntry_def c_assert_def c'_def)
  moreover have "cache_abs c' (es @ [(fresh_address c, k, v)])"
  proof (rule cache_absI)
    show "lru_list (memory c') (mLruList c')
            (map (\<lambda>e. (fst e, fst (snd e))) (es @ [(fresh_address c, k, v)]))"
      using h'(2) by (simp add: c'_def)
    have kn: "(a', k, v') \<notin> set es" for a' v' using ca(3)[of k a' v'] assms(3) by simp
    then have "k \<notin> (\<lambda>e. fst (snd e)) ` set es" by force
    then show "distinct (map (\<lambda>e. fst (snd e)) (es @ [(fresh_address c, k, v)]))"
      using ca(2) by simp
    show "mCache c' k' = Some (a', v') \<longleftrightarrow> (a', k', v') \<in> set (es @ [(fresh_address c, k, v)])"
      for k' a' v'
      using ca(3)[of k' a' v'] kn[of a' v'] by (auto simp: c'_def)
    show "unat (mCurrentCacheSize c') = length (es @ [(fresh_address c, k, v)])"
      using word_inc_below(1)[OF nf] ca(4) by (simp add: c'_def)
    show "mCurrentCacheSize c' \<le> mMaxCacheSize c'"
      using word_inc_below(2)[OF nf] by (simp add: c'_def)
    show "0 < mMaxCacheSize c'" using ca(6) by (simp add: c'_def)
    show "a' < fresh_address c'" if "a' \<in> dom (memory c')" for a'
      using that h'(3) ca(7)[of a'] by (auto simp: c'_def less_Suc_eq)
  qed
  moreover have "mMaxCacheSize c' = mMaxCacheSize c" by (simp add: c'_def)
  ultimately show ?thesis by blast
qed

lemma touchEntry_abs:
  assumes "cache_abs c (xs @ (a, k, v) # ys)"
  shows "\<exists>c'. touchEntry (a, w) c = Some c' \<and> cache_abs c' (xs @ ys @ [(a, k, v)])
           \<and> mMaxCacheSize c' = mMaxCacheSize c \<and> mCache c' = mCache c"
proof -
  note ca = cache_absD[OF assms]
  from ca(1) have l: "lru_list (memory c) (mLruList c)
      (map (\<lambda>e. (fst e, fst (snd e))) xs @ (a, k) # map (\<lambda>e. (fst e, fst (snd e))) ys)"
    by simp
  from moveToBack_spec[OF l] obtain h' where h': "moveToBack (mLruList c) a (memory c) = Some h'"
    "lru_list h' (mLruList c)
       (map (\<lambda>e. (fst e, fst (snd e))) xs @ map (\<lambda>e. (fst e, fst (snd e))) ys @ [(a, k)])"
    "dom h' = dom (memory c)"
    by blast
  define c' where "c' = c\<lparr> memory := h' \<rparr>"
  have "touchEntry (a, w) c = Some c'" using h'(1) by (simp add: touchEntry_def c'_def)
  moreover have "cache_abs c' (xs @ ys @ [(a, k, v)])"
  proof (rule cache_absI)
    show "lru_list (memory c') (mLruList c')
            (map (\<lambda>e. (fst e, fst (snd e))) (xs @ ys @ [(a, k, v)]))"
      using h'(2) by (simp add: c'_def)
    show "distinct (map (\<lambda>e. fst (snd e)) (xs @ ys @ [(a, k, v)]))" using ca(2) by auto
    show "mCache c' k' = Some (a', v') \<longleftrightarrow> (a', k', v') \<in> set (xs @ ys @ [(a, k, v)])"
      for k' a' v'
      using ca(3)[of k' a' v'] by (auto simp: c'_def)
    show "unat (mCurrentCacheSize c') = length (xs @ ys @ [(a, k, v)])"
      using ca(4) by (simp add: c'_def)
    show "mCurrentCacheSize c' \<le> mMaxCacheSize c'" using ca(5) by (simp add: c'_def)
    show "0 < mMaxCacheSize c'" using ca(6) by (simp add: c'_def)
    show "a' < fresh_address c'" if "a' \<in> dom (memory c')" for a'
      using that h'(3) ca(7)[of a'] by (simp add: c'_def)
  qed
  moreover have "mMaxCacheSize c' = mMaxCacheSize c" "mCache c' = mCache c" by (simp_all add: c'_def)
  ultimately show ?thesis by blast
qed

lemma cache_abs_map_of:
  assumes "cache_abs c es"
  shows "map_of (map snd es) k = map_option snd (mCache c k)"
proof -
  note ca = cache_absD[OF assms]
  have d: "distinct (map fst (map snd es))" using ca(2) by (simp add: comp_def)
  show ?thesis
  proof (cases "mCache c k")
    case None
    have "k \<notin> fst ` set (map snd es)"
    proof
      assume "k \<in> fst ` set (map snd es)"
      then obtain a v where "(a, k, v) \<in> set es" by force
      with ca(3)[of k a v] None show False by simp
    qed
    then have "map_of (map snd es) k = None" by (simp add: map_of_eq_None_iff)
    with None show ?thesis by simp
  next
    case (Some p)
    obtain a v where p: "p = (a, v)" by (cases p)
    with Some ca(3)[of k a v] have "(a, k, v) \<in> set es" by simp
    then have "(k, v) \<in> set (map snd es)" by force
    with d have "map_of (map snd es) k = Some v" by simp
    with Some p show ?thesis by simp
  qed
qed

lemma filter_other_keys:
  assumes "distinct (map (\<lambda>e. fst (snd e)) (xs @ (a, k, v) # ys))"
  shows "filter (\<lambda>e. fst e \<noteq> k) (map snd (xs @ (a, k, w) # ys)) = map snd (xs @ ys)"
proof -
  from assms have "\<forall>e\<in>set xs. fst (snd e) \<noteq> k" "\<forall>e\<in>set ys. fst (snd e) \<noteq> k" by auto
  then show ?thesis by (simp add: filter_map comp_def)
qed

lemma cache_abs_update:
  assumes "cache_abs c (xs @ (a, k, v) # ys)"
  shows "cache_abs (updateExistingEntry k (a, w) c) (xs @ (a, k, w) # ys)"
proof (rule cache_absI)
  note ca = cache_absD[OF assms]
  let ?c = "updateExistingEntry k (a, w) c"
  show "lru_list (memory ?c) (mLruList ?c) (map (\<lambda>e. (fst e, fst (snd e))) (xs @ (a, k, w) # ys))"
    using ca(1) by (simp add: updateExistingEntry_def)
  show "distinct (map (\<lambda>e. fst (snd e)) (xs @ (a, k, w) # ys))" using ca(2) by simp
  show "mCache ?c k' = Some (a', v') \<longleftrightarrow> (a', k', v') \<in> set (xs @ (a, k, w) # ys)" for k' a' v'
  proof (cases "k' = k")
    case True
    from ca(2) have "\<forall>e\<in>set xs. fst (snd e) \<noteq> k" "\<forall>e\<in>set ys. fst (snd e) \<noteq> k" by auto
    then have "(a', k, v') \<notin> set xs" "(a', k, v') \<notin> set ys" by force+
    with True show ?thesis by (auto simp: updateExistingEntry_def)
  next
    case False
    then show ?thesis using ca(3)[of k' a' v'] by (auto simp: updateExistingEntry_def)
  qed
  show "unat (mCurrentCacheSize ?c) = length (xs @ (a, k, w) # ys)"
    using ca(4) by (simp add: updateExistingEntry_def)
  show "mCurrentCacheSize ?c \<le> mMaxCacheSize ?c" using ca(5) by (simp add: updateExistingEntry_def)
  show "0 < mMaxCacheSize ?c" using ca(6) by (simp add: updateExistingEntry_def)
  show "a' < fresh_address ?c" if "a' \<in> dom (memory ?c)" for a'
    using that ca(7)[of a'] by (simp add: updateExistingEntry_def)
qed

lemma isFull_abs: "cache_abs c es \<Longrightarrow> isFull c \<longleftrightarrow> unat (mMaxCacheSize c) \<le> length es"
  by (simp add: cache_abs_def isFull_def word_le_nat_alt)

lemma insert_entry_abs:
  assumes "cache_abs c es"
  shows "\<exists>c' es'. insert_entry k v c = Some (True, c') \<and> cache_abs c' es'
           \<and> mMaxCacheSize c' = mMaxCacheSize c
           \<and> map snd es' = spec_insert (unat (mMaxCacheSize c)) k v (map snd es)"
proof (cases "mCache c k")
  case None
  note ca = cache_absD[OF assms]
  have kn: "(a', k, v') \<notin> set es" for a' v' using ca(3)[of k a' v'] None by simp
  then have knk: "k \<notin> fst ` set (map snd es)" by force
  show ?thesis
  proof (cases "isFull c")
    case True
    then have full: "unat (mMaxCacheSize c) \<le> length es" using isFull_abs[OF assms] by simp
    moreover from ca(6) have "0 < unat (mMaxCacheSize c)" by (simp add: word_less_nat_alt)
    ultimately obtain e0 es0 where es: "es = e0 # es0" by (cases es) auto
    obtain a0 k0 v0 where e0: "e0 = (a0, k0, v0)" by (cases e0)
    from deleteOldestEntry_abs[OF assms[unfolded es e0]]
    obtain c1 where c1: "deleteOldestEntry c = Some c1" "cache_abs c1 es0"
      "mMaxCacheSize c1 = mMaxCacheSize c" by blast
    note ca1 = cache_absD[OF c1(2)]
    have "mCache c1 k = None"
    proof (cases "mCache c1 k")
      case (Some p)
      then obtain a' v' where "mCache c1 k = Some (a', v')" by (cases p) auto
      with ca1(3)[of k a' v'] kn[of a' v'] es show ?thesis by simp
    qed simp
    moreover have "\<not> isFull c1"
    proof -
      from ca(4,5) have "length es \<le> unat (mMaxCacheSize c)" by (simp add: word_le_nat_alt)
      with es have "length es0 < unat (mMaxCacheSize c1)" by (simp add: c1(3))
      then show ?thesis using isFull_abs[OF c1(2)] by simp
    qed
    ultimately obtain c' where c': "insertNewEntry k v c1 = Some c'"
      "cache_abs c' (es0 @ [(fresh_address c1, k, v)])" "mMaxCacheSize c' = mMaxCacheSize c1"
      using insertNewEntry_abs[OF c1(2), of k v] by blast
    have "insert_entry k v c = Some (True, c')"
      using None True c1(1) c'(1) by (simp add: insert_entry_def lookupCache_def)
    moreover have "map snd (es0 @ [(fresh_address c1, k, v)])
                     = spec_insert (unat (mMaxCacheSize c)) k v (map snd es)"
      using knk full by (simp add: spec_insert_def es)
    ultimately show ?thesis using c'(2,3) c1(3) by metis
  next
    case False
    then have nfull: "\<not> unat (mMaxCacheSize c) \<le> length es" using isFull_abs[OF assms] by simp
    from insertNewEntry_abs[OF assms False None, of v]
    obtain c' where c': "insertNewEntry k v c = Some c'"
      "cache_abs c' (es @ [(fresh_address c, k, v)])" "mMaxCacheSize c' = mMaxCacheSize c"
      by blast
    have "insert_entry k v c = Some (True, c')"
      using None False c'(1) by (simp add: insert_entry_def lookupCache_def)
    moreover have "map snd (es @ [(fresh_address c, k, v)])
                     = spec_insert (unat (mMaxCacheSize c)) k v (map snd es)"
      using knk nfull by (simp add: spec_insert_def)
    ultimately show ?thesis using c'(2,3) by metis
  qed
next
  case (Some p)
  note ca = cache_absD[OF assms]
  obtain a v0 where p: "p = (a, v0)" by (cases p)
  with Some ca(3)[of k a v0] have "(a, k, v0) \<in> set es" by simp
  then obtain xs ys where es: "es = xs @ (a, k, v0) # ys" by (auto simp: in_set_conv_decomp)
  have c1: "cache_abs (updateExistingEntry k (a, v) c) (xs @ (a, k, v) # ys)"
    by (rule cache_abs_update[OF assms[unfolded es]])
  from touchEntry_abs[OF c1, of v]
  obtain c' where c': "touchEntry (a, v) (updateExistingEntry k (a, v) c) = Some c'"
    "cache_abs c' (xs @ ys @ [(a, k, v)])"
    "mMaxCacheSize c' = mMaxCacheSize (updateExistingEntry k (a, v) c)"
    by blast
  have "insert_entry k v c = Some (True, c')"
    using Some p c'(1) by (simp add: insert_entry_def lookupCache_def)
  moreover have "map snd (xs @ ys @ [(a, k, v)])
                     = spec_insert (unat (mMaxCacheSize c)) k v (map snd es)"
  proof -
    have "k \<in> fst ` set (map snd es)" unfolding es by force
    moreover have "filter (\<lambda>e. fst e \<noteq> k) (map snd es) = map snd (xs @ ys)"
      unfolding es by (rule filter_other_keys[OF ca(2)[unfolded es]])
    ultimately show ?thesis by (simp add: spec_insert_def)
  qed
  moreover have "mMaxCacheSize c' = mMaxCacheSize c"
    using c'(3) by (simp add: updateExistingEntry_def)
  ultimately show ?thesis using c'(2) by metis
qed

lemma lookup_abs:
  assumes "cache_abs c es"
  shows "\<exists>c' es'. lookup k c = Some (mCache c k \<noteq> None, map_option snd (mCache c k), c')
           \<and> cache_abs c' es' \<and> mMaxCacheSize c' = mMaxCacheSize c
           \<and> map snd es' = spec_lookup k (map snd es)
           \<and> map_option snd (mCache c k) = map_of (map snd es) k"
proof (cases "mCache c k")
  case None
  then have "lookup k c = Some (mCache c k \<noteq> None, map_option snd (mCache c k), c)"
    by (simp add: lookup_def lookupCache_def)
  moreover have "map snd es = spec_lookup k (map snd es)"
    using cache_abs_map_of[OF assms, of k] None by (simp add: spec_lookup_def)
  ultimately show ?thesis using assms cache_abs_map_of[OF assms, of k] by metis
next
  case (Some p)
  note ca = cache_absD[OF assms]
  obtain a v where p: "p = (a, v)" by (cases p)
  with Some ca(3)[of k a v] have "(a, k, v) \<in> set es" by simp
  then obtain xs ys where es: "es = xs @ (a, k, v) # ys" by (auto simp: in_set_conv_decomp)
  from touchEntry_abs[OF assms[unfolded es], of v]
  obtain c' where c': "touchEntry (a, v) c = Some c'" "cache_abs c' (xs @ ys @ [(a, k, v)])"
    "mMaxCacheSize c' = mMaxCacheSize c"
    by blast
  have "lookup k c = Some (mCache c k \<noteq> None, map_option snd (mCache c k), c')"
    using Some p c'(1) by (simp add: lookup_def lookupCache_def)
  moreover have "map snd (xs @ ys @ [(a, k, v)]) = spec_lookup k (map snd es)"
  proof -
    have "map_of (map snd es) k = Some v"
      using cache_abs_map_of[OF assms, of k] Some p by simp
    moreover have "filter (\<lambda>e. fst e \<noteq> k) (map snd es) = map snd (xs @ ys)"
      unfolding es by (rule filter_other_keys[OF ca(2)[unfolded es]])
    ultimately show ?thesis by (simp add: spec_lookup_def)
  qed
  ultimately show ?thesis using c'(2,3) cache_abs_map_of[OF assms, of k] by metis
qed

lemma drop_cache_abs:
  assumes "cache_abs c es"
  shows "\<exists>c'. drop_cache c = Some c' \<and> cache_abs c' [] \<and> mMaxCacheSize c' = mMaxCacheSize c"
proof -
  note ca = cache_absD[OF assms]
  from clear_spec[OF ca(1)] obtain h' where h': "clear (mLruList c) (memory c) = Some h'"
    "lru_list h' (mLruList c) []" "dom h' \<subseteq> dom (memory c)"
    by blast
  define c' where "c' = c\<lparr> mCurrentCacheSize := 0, memory := h', mCache := Map.empty \<rparr>"
  have "drop_cache c = Some c'" using h'(1) by (simp add: drop_cache_def c'_def)
  moreover have "cache_abs c' []"
  proof (rule cache_absI)
    show "lru_list (memory c') (mLruList c') (map (\<lambda>e. (fst e, fst (snd e))) [])"
      using h'(2) by (simp add: c'_def)
    show "a' < fresh_address c'" if "a' \<in> dom (memory c')" for a'
      using that h'(3) ca(7)[of a'] by (auto simp: c'_def)
  qed (use ca(6) in \<open>simp_all add: c'_def\<close>)
  moreover have "mMaxCacheSize c' = mMaxCacheSize c" by (simp add: c'_def)
  ultimately show ?thesis by blast
qed

lemma resize_loop_abs:
  assumes "cache_abs c es"
  shows "\<exists>c'. resize_loop n c = Some c' \<and> cache_abs c' (drop (length es - unat n) es)
           \<and> mMaxCacheSize c' = mMaxCacheSize c"
  using assms
proof (induction es arbitrary: c)
  case Nil
  then have "\<not> n < mCurrentCacheSize c" by (simp add: cache_abs_def word_less_nat_alt)
  then have "resize_loop n c = Some c" by (subst resize_loop.simps) simp
  with Nil show ?case by simp
next
  case (Cons e es)
  note ca = cache_absD[OF Cons.prems]
  show ?case
  proof (cases "n < mCurrentCacheSize c")
    case True
    then have gt: "unat n < Suc (length es)" using ca(4) by (simp add: word_less_nat_alt)
    obtain a k v where e: "e = (a, k, v)" by (cases e)
    from deleteOldestEntry_abs[OF Cons.prems[unfolded e]]
    obtain c1 where c1: "deleteOldestEntry c = Some c1" "cache_abs c1 es"
      "mMaxCacheSize c1 = mMaxCacheSize c" by blast
    from Cons.IH[OF c1(2)] obtain c' where c': "resize_loop n c1 = Some c'"
      "cache_abs c' (drop (length es - unat n) es)" "mMaxCacheSize c' = mMaxCacheSize c1"
      by blast
    have "resize_loop n c = Some c'"
      using True c1(1) c'(1) by (subst resize_loop.simps) simp
    moreover have "drop (length (e # es) - unat n) (e # es) = drop (length es - unat n) es"
      using gt by (simp add: Suc_diff_le)
    ultimately show ?thesis using c'(2,3) c1(3) by simp
  next
    case False
    then have "length (e # es) - unat n = 0" using ca(4) by (simp add: word_less_nat_alt)
    moreover from False have "resize_loop n c = Some c" by (subst resize_loop.simps) simp
    ultimately show ?thesis using Cons.prems by simp
  qed
qed

lemma resize_abs:
  assumes "cache_abs c es" "0 < n"
  shows "\<exists>c' es'. resize n c = Some c' \<and> cache_abs c' es' \<and> mMaxCacheSize c' = n
           \<and> map snd es' = spec_resize (unat n) (map snd es)"
proof -
  from resize_loop_abs[OF assms(1), of n] obtain c1 where c1: "resize_loop n c = Some c1"
    "cache_abs c1 (drop (length es - unat n) es)" by blast
  note ca = cache_absD[OF c1(2)]
  define c' where "c' = c1\<lparr> mMaxCacheSize := n \<rparr>"
  have "resize n c = Some c'" using assms(2) c1(1) by (simp add: resize_def c_assert_def c'_def)
  moreover have "cache_abs c' (drop (length es - unat n) es)"
  proof (rule cache_absI)
    have "unat (mCurrentCacheSize c1) \<le> unat n" using ca(4) by simp
    then show "mCurrentCacheSize c' \<le> mMaxCacheSize c'" by (simp add: c'_def word_le_nat_alt)
    show "a' < fresh_address c'" if "a' \<in> dom (memory c')" for a'
      using that ca(7)[of a'] by (simp add: c'_def)
    show "mCache c' k = Some (a, v) \<longleftrightarrow> (a, k, v) \<in> set (drop (length es - unat n) es)" for k a v
      using ca(3)[of k a v] by (simp add: c'_def)
  qed (use ca assms(2) in \<open>simp_all add: c'_def\<close>)
  moreover have "map snd (drop (length es - unat n) es) = spec_resize (unat n) (map snd es)"
    by (simp add: spec_resize_def drop_map)
  moreover have "mMaxCacheSize c' = n" by (simp add: c'_def)
  ultimately show ?thesis by blast
qed

lemma apply_op_abs:
  assumes "cache_abs c es" "valid_op x"
  shows "\<exists>c' es'. apply_op x c = Some c' \<and> cache_abs c' es'
           \<and> (unat (mMaxCacheSize c'), map snd es')
               = spec_step x (unat (mMaxCacheSize c), map snd es)"
proof (cases x)
  case (Insert k v)
  from insert_entry_abs[OF assms(1), of k v] show ?thesis unfolding Insert by force
next
  case (Lookup k)
  from lookup_abs[OF assms(1), of k] show ?thesis unfolding Lookup by force
next
  case Drop
  from drop_cache_abs[OF assms(1)] show ?thesis unfolding Drop by force
next
  case (Resize n)
  with assms(2) have "0 < n" by (simp add: valid_op_def)
  from resize_abs[OF assms(1) this] show ?thesis unfolding Resize by force
qed

lemma run_ops_abs:
  assumes "cache_abs c es" "list_all valid_op ops"
  shows "\<exists>c' es'. run_ops ops c = Some c' \<and> cache_abs c' es'
           \<and> (unat (mMaxCacheSize c'), map snd es')
               = fold spec_step ops (unat (mMaxCacheSize c), map snd es)"
  using assms
proof (induction ops arbitrary: c es)
  case Nil
  then show ?case by auto
next
  case (Cons x ops)
  from Cons.prems(2) have v: "valid_op x" "list_all valid_op ops" by simp_all
  from apply_op_abs[OF Cons.prems(1) v(1)] obtain c1 es1 where c1: "apply_op x c = Some c1"
    "cache_abs c1 es1" "(unat (mMaxCacheSize c1), map snd es1)
               = spec_step x (unat (mMaxCacheSize c), map snd es)"
    by blast
  from Cons.IH[OF c1(2) v(2)] obtain c' es' where c': "run_ops ops c1 = Some c'"
    "cache_abs c' es'" "(unat (mMaxCacheSize c'), map snd es')
               = fold spec_step ops (unat (mMaxCacheSize c1), map snd es1)"
    by blast
  have "run_ops (x # ops) c = Some c'" using c1(1) c'(1) by simp
  moreover have "(unat (mMaxCacheSize c'), map snd es')
               = fold spec_step (x # ops) (unat (mMaxCacheSize c), map snd es)"
    using c'(3) c1(3) by simp
  ultimately show ?case using c'(2) by blast
qed

lemma cache_abs_card:
  assumes "cache_abs c es"
  shows "card (dom (mCache c)) = unat (mCurrentCacheSize c)"
proof -
  note ca = cache_absD[OF assms]
  have "dom (mCache c) = set (map (\<lambda>e. fst (snd e)) es)"
  proof (rule set_eqI)
    fix k
    show "k \<in> dom (mCache c) \<longleftrightarrow> k \<in> set (map (\<lambda>e. fst (snd e)) es)"
    proof
      assume "k \<in> dom (mCache c)"
      then obtain a v where "mCache c k = Some (a, v)" by auto
      with ca(3)[of k a v] show "k \<in> set (map (\<lambda>e. fst (snd e)) es)" by force
    next
      assume "k \<in> set (map (\<lambda>e. fst (snd e)) es)"
      then obtain a v where "(a, k, v) \<in> set es" by force
      with ca(3)[of k a v] show "k \<in> dom (mCache c)" by auto
    qed
  qed
  then have "card (dom (mCache c)) = length es"
    using distinct_card[OF ca(2)] by simp
  with ca(4) show ?thesis by simp
qed

lemma walk_path:
  assumes "path (get_next h) x (map fst aks) y"
    and "\<And>a k. (a, k) \<in> set aks \<Longrightarrow> getContent h a = Some k"
  shows "walk h x (length aks) = map snd aks"
  using assms
proof (induction aks arbitrary: x)
  case Nil
  then show ?case by simp
next
  case (Cons e aks)
  obtain a k where e: "e = (a, k)" by (cases e)
  from Cons.prems(1) obtain z where x: "x = a" and z: "get_next h a = Some z"
    and p: "path (get_next h) z (map fst aks) y"
    by (auto simp: e split: option.splits)
  from getContent_entry[OF Cons.prems(2)[of a k]] obtain en where
    en: "h a = Some en" "mContent en = Some k" by (auto simp: e)
  with z have n: "next_ptr en = z" by (simp add: get_next_def)
  have "walk h z (length aks) = map snd aks"
    by (rule Cons.IH[OF p]) (simp add: Cons.prems(2))
  then show ?case using x en n by (simp add: e)
qed

lemma cache_abs_order:
  assumes "cache_abs c es"
  shows "lru_order c = map (\<lambda>e. fst (snd e)) es"
proof -
  note ca = cache_absD[OF assms]
  note l = lru_listD[OF ca(1)]
  let ?aks = "map (\<lambda>e. (fst e, fst (snd e))) es"
  from l(1) obtain z where z: "get_next (memory c) (mLruList c) = Some z"
    "path (get_next (memory c)) z (map fst ?aks) (mLruList c)"
    by (auto simp: ring_def split: option.splits)
  have "walk (memory c) z (length ?aks) = map snd ?aks"
    by (rule walk_path[OF z(2)]) (rule l(3))
  then show ?thesis
    using z(1) ca(4) by (simp add: lru_order_def getNumberOfEntries_def comp_def)
qed

lemma cache_abs_contents:
  assumes "cache_abs c es"
  shows "lru_contents c = map snd es"
proof -
  note ca = cache_absD[OF assms]
  have "List.map_filter (\<lambda>k. map_option (\<lambda>entry. (k, snd entry)) (mCache c k))
          (map (\<lambda>e. fst (snd e)) xs) = map snd xs" if "set xs \<subseteq> set es" for xs
    using that
  proof (induction xs)
    case Nil
    then show ?case by (simp add: List.map_filter_simps)
  next
    case (Cons e xs)
    obtain a k v where e: "e = (a, k, v)" by (cases e)
    with Cons.prems ca(3)[of k a v] have "mCache c k = Some (a, v)" by simp
    with Cons show ?case by (simp add: List.map_filter_simps e)
  qed
  then show ?thesis
    unfolding lru_contents_def cache_abs_order[OF assms] by simp
qed

lemmas list_entry_eval =
  c_assert_def get_next_def get_prev_def set_next_def set_prev_def isListHead_def isLonely_def
  getContent_def insertAsPredecessor_def removeFromList_def pop_def pop_front_def
  push_back_def moveToBack_def clear_def clear_loop.simps

lemmas cache_eval =
  LruCache_new_def isFull_def isEmpty_def lookupCache_def insertNewEntry_def
  updateExistingEntry_def touchEntry_def deleteOldestEntry_def insert_entry_def lookup_def
  drop_cache_def resize_def resize_loop.simps getNumberOfEntries_def
  word_le_nat_alt word_less_nat_alt

subsection \<open>The claims on the cache\<close>

text \<open>
  C3: on a cache of capacity 2, after \<open>Insert(1,A); Insert(2,B); Lookup(1);
  Insert(3,C)\<close> the lookup of key 2 misses, and the lookups of keys 1 and 3 hit with the
  values \<open>A\<close> and \<open>C\<close>; the \<open>Lookup(1)\<close> in the middle hits with \<open>A\<close>. No operation of the
  run fails. The lookup has promoted key 1, so the insertion into the full cache has
  evicted key 2, the least recently used.
\<close>

theorem lru_eviction_scenario:
  "do {
     c \<leftarrow> LruCache_new 2;
     (_, c) \<leftarrow> insert_entry (1::64 word) A c;
     (_, c) \<leftarrow> insert_entry 2 B c;
     (hit, v, c) \<leftarrow> lookup 1 c;
     (_, c) \<leftarrow> insert_entry 3 C c;
     (hit2, v2, c) \<leftarrow> lookup 2 c;
     (hit1, v1, c) \<leftarrow> lookup 1 c;
     (hit3, v3, c) \<leftarrow> lookup 3 c;
     Some ((hit, v), (hit2, v2), (hit1, v1), (hit3, v3))
   } = Some ((True, Some A), (False, None), (True, Some A), (True, Some C))"
  by (simp add: list_entry_eval cache_eval)

text \<open>
  C9: take a cache constructed with a capacity above 0 and run any sequence of insert,
  lookup, drop and resize on it, each resize to a size above 0. Then every operation
  returns, and in the cache \<open>c\<close> reached the number of entries is at most the maximum
  in force and is the number of keys the map holds. Moreover, inserting a new key into
  \<open>c\<close> when it is full leaves the number of entries as it is and drops exactly the
  first, least recently used, entry before the new one is appended; and a resize of
  \<open>c\<close> drops entries from the least recently used end until the number fits the new
  size, which then is the maximum.
\<close>


theorem lru_cache_never_exceeds_capacity:
  assumes "0 < capacity" and "\<forall>newSize. Resize newSize \<in> set ops \<longrightarrow> 0 < newSize"
  shows "\<exists>c. Option.bind (LruCache_new capacity) (run_ops ops) = Some c
           \<and> getNumberOfEntries c \<le> mMaxCacheSize c
           \<and> card (dom (mCache c)) = unat (getNumberOfEntries c)
           \<and> (\<forall>k v. isFull c \<and> mCache c k = None \<longrightarrow>
                 (\<exists>c'. insert_entry k v c = Some (True, c')
                    \<and> getNumberOfEntries c' = getNumberOfEntries c
                    \<and> lru_contents c' = tl (lru_contents c) @ [(k, v)]))
           \<and> (\<forall>newSize. 0 < newSize \<longrightarrow>
                 (\<exists>c'. resize newSize c = Some c' \<and> mMaxCacheSize c' = newSize
                    \<and> getNumberOfEntries c' \<le> newSize
                    \<and> lru_contents c'
                        = drop (length (lru_contents c) - unat newSize) (lru_contents c)))"
proof -
  from LruCache_new_abs[OF assms(1)] obtain c0 :: "('a, 'b) LruCache" where
    c0: "LruCache_new capacity = Some c0" "cache_abs c0 []" by blast
  have "list_all valid_op ops"
    unfolding list_all_iff
  proof
    fix x assume "x \<in> set ops"
    with assms(2) show "valid_op x" by (cases x) (simp_all add: valid_op_def)
  qed
  from run_ops_abs[OF c0(2) this] obtain c es where c: "run_ops ops c0 = Some c" "cache_abs c es"
    by blast
  note ca = cache_absD[OF c(2)]
  have run: "Option.bind (LruCache_new capacity) (run_ops ops) = Some c"
    using c0(1) c(1) by simp
  have bound: "getNumberOfEntries c \<le> mMaxCacheSize c"
    using ca(5) by (simp add: getNumberOfEntries_def)
  have card: "card (dom (mCache c)) = unat (getNumberOfEntries c)"
    using cache_abs_card[OF c(2)] by (simp add: getNumberOfEntries_def)
  have ins: "\<exists>c'. insert_entry k v c = Some (True, c')
                    \<and> getNumberOfEntries c' = getNumberOfEntries c
                    \<and> lru_contents c' = tl (lru_contents c) @ [(k, v)]"
    if "isFull c" "mCache c k = None" for k v
  proof -
    from insert_entry_abs[OF c(2), of k v] obtain c' es' where c':
      "insert_entry k v c = Some (True, c')" "cache_abs c' es'"
      "map snd es' = spec_insert (unat (mMaxCacheSize c)) k v (map snd es)"
      by blast
    from that(2) have "map_of (map snd es) k = None"
      using cache_abs_map_of[OF c(2), of k] by simp
    then have kn: "k \<notin> fst ` set (map snd es)" by (simp add: map_of_eq_None_iff)
    from that(1) have full: "unat (mMaxCacheSize c) \<le> length es"
      using isFull_abs[OF c(2)] by simp
    from kn full c'(3) have es': "map snd es' = tl (map snd es) @ [(k, v)]"
      by (simp add: spec_insert_def)
    from ca(6) full have "es \<noteq> []" by (auto simp: word_less_nat_alt)
    then have "length (tl (map snd es) @ [(k, v)]) = length es" by simp
    with es' have "length (map snd es') = length es" by simp
    then have "length es' = length es" by simp
    then have "unat (mCurrentCacheSize c') = unat (mCurrentCacheSize c)"
      using cache_absD(4)[OF c'(2)] ca(4) by simp
    then have "getNumberOfEntries c' = getNumberOfEntries c"
      by (simp add: getNumberOfEntries_def word_unat_eq_iff)
    moreover have "lru_contents c' = tl (lru_contents c) @ [(k, v)]"
      using es' by (simp add: cache_abs_contents[OF c'(2)] cache_abs_contents[OF c(2)])
    ultimately show ?thesis using c'(1) by blast
  qed
  have res: "\<exists>c'. resize newSize c = Some c' \<and> mMaxCacheSize c' = newSize
                    \<and> getNumberOfEntries c' \<le> newSize
                    \<and> lru_contents c'
                        = drop (length (lru_contents c) - unat newSize) (lru_contents c)"
    if "0 < newSize" for newSize
  proof -
    from resize_abs[OF c(2) that] obtain c' es' where c':
      "resize newSize c = Some c'" "cache_abs c' es'" "mMaxCacheSize c' = newSize"
      "map snd es' = spec_resize (unat newSize) (map snd es)"
      by blast
    have "getNumberOfEntries c' \<le> newSize"
      using cache_absD(5)[OF c'(2)] c'(3) by (simp add: getNumberOfEntries_def)
    moreover have "lru_contents c'
                        = drop (length (lru_contents c) - unat newSize) (lru_contents c)"
      using c'(4)
      by (simp add: cache_abs_contents[OF c'(2)] cache_abs_contents[OF c(2)] spec_resize_def)
    ultimately show ?thesis using c'(1,3) by blast
  qed
  have ins': "\<forall>k v. isFull c \<and> mCache c k = None \<longrightarrow>
                 (\<exists>c'. insert_entry k v c = Some (True, c')
                    \<and> getNumberOfEntries c' = getNumberOfEntries c
                    \<and> lru_contents c' = tl (lru_contents c) @ [(k, v)])"
  proof (intro allI impI)
    fix k v assume "isFull c \<and> mCache c k = None"
    then have "isFull c" "mCache c k = None" by simp_all
    then show "\<exists>c'. insert_entry k v c = Some (True, c')
                    \<and> getNumberOfEntries c' = getNumberOfEntries c
                    \<and> lru_contents c' = tl (lru_contents c) @ [(k, v)]"
      by (rule ins)
  qed
  have res': "\<forall>newSize. 0 < newSize \<longrightarrow>
                 (\<exists>c'. resize newSize c = Some c' \<and> mMaxCacheSize c' = newSize
                    \<and> getNumberOfEntries c' \<le> newSize
                    \<and> lru_contents c'
                        = drop (length (lru_contents c) - unat newSize) (lru_contents c))"
  proof (intro allI impI)
    fix newSize :: "32 word" assume "0 < newSize"
    then show "\<exists>c'. resize newSize c = Some c' \<and> mMaxCacheSize c' = newSize
                    \<and> getNumberOfEntries c' \<le> newSize
                    \<and> lru_contents c'
                        = drop (length (lru_contents c) - unat newSize) (lru_contents c)"
      by (rule res)
  qed
  show ?thesis
  proof (rule exI[of _ c], intro conjI)
    show "Option.bind (LruCache_new capacity) (run_ops ops) = Some c" by (rule run)
  qed (rule bound card ins' res')+
qed

theorem lru_cache_never_exceeds_capacity_witness:
  "(0::32 word) < 2
   \<and> (\<exists>c. Option.bind (LruCache_new 2)
             (run_ops [Insert (1::64 word) (10::nat), Resize 2, Insert 2 20, Lookup 1]) = Some c
         \<and> getNumberOfEntries c \<le> mMaxCacheSize c
         \<and> card (dom (mCache c)) = unat (getNumberOfEntries c)
         \<and> isFull c \<and> mCache c 3 = None
         \<and> (\<exists>c'. insert_entry 3 30 c = Some (True, c')
               \<and> getNumberOfEntries c' = getNumberOfEntries c
               \<and> lru_contents c' = tl (lru_contents c) @ [(3, 30)])
         \<and> (\<exists>c'. resize 1 c = Some c' \<and> mMaxCacheSize c' = 1 \<and> getNumberOfEntries c' \<le> 1
               \<and> lru_contents c' = drop (length (lru_contents c) - unat (1::32 word)) (lru_contents c)))"
proof -
  let ?ops = "[Insert (1::64 word) (10::nat), Resize 2, Insert 2 20, Lookup 1]"
  have h1: "(0::32 word) < 2" by simp
  have h2: "\<forall>newSize. Resize newSize \<in> set ?ops \<longrightarrow> 0 < newSize" by simp
  from lru_cache_never_exceeds_capacity[OF h1 h2] obtain c where
    c: "Option.bind (LruCache_new 2) (run_ops ?ops) = Some c"
       "getNumberOfEntries c \<le> mMaxCacheSize c"
       "card (dom (mCache c)) = unat (getNumberOfEntries c)"
       "\<forall>k v. isFull c \<and> mCache c k = None \<longrightarrow>
                 (\<exists>c'. insert_entry k v c = Some (True, c')
                    \<and> getNumberOfEntries c' = getNumberOfEntries c
                    \<and> lru_contents c' = tl (lru_contents c) @ [(k, v)])"
       "\<forall>newSize. 0 < newSize \<longrightarrow>
                 (\<exists>c'. resize newSize c = Some c' \<and> mMaxCacheSize c' = newSize
                    \<and> getNumberOfEntries c' \<le> newSize
                    \<and> lru_contents c'
                        = drop (length (lru_contents c) - unat newSize) (lru_contents c))"
    by blast
  have "map_option (\<lambda>c. (isFull c, mCache c 3)) (Option.bind (LruCache_new 2) (run_ops ?ops))
          = Some (True, None)"
    by (simp add: list_entry_eval cache_eval)
  with c(1) have full: "isFull c" "mCache c 3 = None" by simp_all
  from full have "isFull c \<and> mCache c 3 = None" by simp
  from c(4)[rule_format, OF this]
  have i: "\<exists>c'. insert_entry 3 30 c = Some (True, c')
               \<and> getNumberOfEntries c' = getNumberOfEntries c
               \<and> lru_contents c' = tl (lru_contents c) @ [(3, 30)]" .
  have "(0::32 word) < 1" by simp
  from c(5)[rule_format, OF this]
  have r: "\<exists>c'. resize 1 c = Some c' \<and> mMaxCacheSize c' = 1 \<and> getNumberOfEntries c' \<le> 1
               \<and> lru_contents c' = drop (length (lru_contents c) - unat (1::32 word)) (lru_contents c)" .
  show ?thesis
  proof (intro conjI h1, rule exI[of _ c], intro conjI)
    show "Option.bind (LruCache_new 2) (run_ops ?ops) = Some c" by (rule c(1))
  qed (rule c(2) c(3) full i r)+
qed

text \<open>
  The cache refines the spec's description: after any run of operations on a new cache
  (capacity above 0, every resize to a size above 0) the maximum and the key-value
  pairs in the order of the list, least recently used first, are those that the spec's
  list functions compute from the same operations.
\<close>

theorem lru_cache_refines_spec:
  assumes "0 < capacity" and "\<forall>newSize. Resize newSize \<in> set ops \<longrightarrow> 0 < newSize"
  shows "\<exists>c. Option.bind (LruCache_new capacity) (run_ops ops) = Some c
           \<and> (unat (mMaxCacheSize c), lru_contents c) = fold spec_step ops (unat capacity, [])"
proof -
  from LruCache_new_abs[OF assms(1)] obtain c0 :: "('a, 'b) LruCache" where
    c0: "LruCache_new capacity = Some c0" "cache_abs c0 []" "mMaxCacheSize c0 = capacity"
    by blast
  have "list_all valid_op ops"
    unfolding list_all_iff
  proof
    fix x assume "x \<in> set ops"
    with assms(2) show "valid_op x" by (cases x) (simp_all add: valid_op_def)
  qed
  from run_ops_abs[OF c0(2) this] obtain c es where c: "run_ops ops c0 = Some c"
    "cache_abs c es"
    "(unat (mMaxCacheSize c), map snd es) = fold spec_step ops (unat (mMaxCacheSize c0), [])"
    by auto
  have "Option.bind (LruCache_new capacity) (run_ops ops) = Some c"
    using c0(1) c(1) by simp
  moreover have "(unat (mMaxCacheSize c), lru_contents c) = fold spec_step ops (unat capacity, [])"
    using c(3) by (simp add: cache_abs_contents[OF c(2)] c0(3))
  ultimately show ?thesis by blast
qed

theorem lru_cache_refines_spec_witness:
  "(0::32 word) < 2
   \<and> (\<exists>c. Option.bind (LruCache_new 2)
             (run_ops [Insert (1::64 word) (10::nat), Insert 2 20, Lookup 1, Insert 3 30,
                       Resize 1]) = Some c
         \<and> (unat (mMaxCacheSize c), lru_contents c) = (1, [(3, 30)]))"
proof -
  let ?ops = "[Insert (1::64 word) (10::nat), Insert 2 20, Lookup 1, Insert 3 30, Resize 1]"
  have h1: "(0::32 word) < 2" by simp
  have h2: "\<forall>newSize. Resize newSize \<in> set ?ops \<longrightarrow> 0 < newSize" by simp
  have "fold spec_step ?ops (unat (2::32 word), []) = (1, [(3, 30)])"
    by (simp add: spec_insert_def spec_lookup_def spec_resize_def)
  with lru_cache_refines_spec[OF h1 h2] h1 show ?thesis by simp
qed

text \<open>
  The round trip \<open>Insert(k, v); Lookup(k) = v\<close> on every cache reached by such a run.
\<close>

theorem insert_then_lookup:
  assumes "0 < capacity" and "\<forall>newSize. Resize newSize \<in> set ops \<longrightarrow> 0 < newSize"
  shows "\<exists>c c' c''. Option.bind (LruCache_new capacity) (run_ops ops) = Some c
           \<and> insert_entry k v c = Some (True, c')
           \<and> lookup k c' = Some (True, Some v, c'')"
proof -
  from LruCache_new_abs[OF assms(1)] obtain c0 :: "('a, 'b) LruCache" where
    c0: "LruCache_new capacity = Some c0" "cache_abs c0 []" by blast
  have "list_all valid_op ops"
    unfolding list_all_iff
  proof
    fix x assume "x \<in> set ops"
    with assms(2) show "valid_op x" by (cases x) (simp_all add: valid_op_def)
  qed
  from run_ops_abs[OF c0(2) this] obtain c es where c: "run_ops ops c0 = Some c"
    "cache_abs c es" by blast
  from insert_entry_abs[OF c(2), of k v] obtain c' es' where c':
    "insert_entry k v c = Some (True, c')" "cache_abs c' es'"
    "map snd es' = spec_insert (unat (mMaxCacheSize c)) k v (map snd es)"
    by blast
  have "(k, v) \<in> set (map snd es')" unfolding c'(3) by (simp add: spec_insert_def)
  then obtain a where "(a, k, v) \<in> set es'" by force
  with cache_absD(3)[OF c'(2), of k a v] have m: "mCache c' k = Some (a, v)" by simp
  from lookup_abs[OF c'(2), of k] obtain c'' where
    "lookup k c' = Some (mCache c' k \<noteq> None, map_option snd (mCache c' k), c'')" by blast
  with m have "lookup k c' = Some (True, Some v, c'')" by simp
  moreover have "Option.bind (LruCache_new capacity) (run_ops ops) = Some c"
    using c0(1) c(1) by simp
  ultimately show ?thesis using c'(1) by blast
qed

theorem insert_then_lookup_witness:
  "(0::32 word) < 1
   \<and> (\<exists>c c' c''. Option.bind (LruCache_new 1) (run_ops [Insert (1::64 word) (10::nat), Resize 3]) = Some c
           \<and> insert_entry 2 20 c = Some (True, c')
           \<and> lookup 2 c' = Some (True, Some 20, c''))"
proof -
  have h1: "(0::32 word) < 1" by simp
  have h2: "\<forall>newSize. Resize newSize \<in> set [Insert (1::64 word) (10::nat), Resize 3] \<longrightarrow> 0 < newSize"
    by simp
  from insert_then_lookup[OF h1 h2, of 2 20] h1 show ?thesis by simp
qed

end
